theory Spec2Isabelle
  imports Main "HOL-Library.AList" "HOL-Library.Multiset"
begin

section \<open>Go strings and the library functions the engine calls\<close>

text \<open>
  A Go string is a sequence of bytes; it is modelled as a \<^typ>\<open>string\<close>, one
  \<^typ>\<open>char\<close> per byte. The functions of this section are the functions of Go's
  packages \<^verbatim>\<open>strings\<close>, \<^verbatim>\<open>unicode\<close>, \<^verbatim>\<open>unicode/utf8\<close> and \<^verbatim>\<open>regexp\<close> that the
  repository calls: \<^verbatim>\<open>strings.Fields\<close>, \<^verbatim>\<open>strings.Split\<close>,
  \<^verbatim>\<open>strings.TrimSpace\<close>, \<^verbatim>\<open>strings.ReplaceAll\<close>, \<^verbatim>\<open>strings.ToLower\<close>,
  \<^verbatim>\<open>strings.ToUpper\<close>, \<^verbatim>\<open>strings.HasPrefix\<close>, \<^verbatim>\<open>strings.TrimPrefix\<close>,
  \<^verbatim>\<open>strings.Contains\<close>, \<^verbatim>\<open>regexp.Compile\<close> and \<^verbatim>\<open>MatchString\<close>.
\<close>

definition byte :: "char \<Rightarrow> nat" where
  "byte c = of_char c"

definition RuneSelf :: nat where
  "RuneSelf = 0x80"

definition RuneError :: nat where
  "RuneError = 0xFFFD"

definition isASCII :: "string \<Rightarrow> bool" where
  "isASCII s = list_all (\<lambda>c. byte c < RuneSelf) s"

text \<open>The table \<^verbatim>\<open>asciiSpace\<close> of package \<^verbatim>\<open>strings\<close>: tab, newline, vertical tab,
  form feed, carriage return and space.\<close>

definition asciiSpace :: "char \<Rightarrow> bool" where
  "asciiSpace c = (byte c = 9 \<or> byte c = 10 \<or> byte c = 11 \<or> byte c = 12 \<or> byte c = 13 \<or> byte c = 32)"

text \<open>\<^verbatim>\<open>unicode.IsSpace\<close>: the Latin-1 spaces and the code points with the property
  White_Space.\<close>

definition IsSpace :: "nat \<Rightarrow> bool" where
  "IsSpace r =
     (if r \<le> 0xFF then
        (r = 9 \<or> r = 10 \<or> r = 11 \<or> r = 12 \<or> r = 13 \<or> r = 32 \<or> r = 0x85 \<or> r = 0xA0)
      else
        (r = 0x1680 \<or> (0x2000 \<le> r \<and> r \<le> 0x200A) \<or> r = 0x2028 \<or> r = 0x2029 \<or>
         r = 0x202F \<or> r = 0x205F \<or> r = 0x3000))"

text \<open>\<^verbatim>\<open>utf8.RuneStart\<close>: the byte is not a continuation byte.\<close>

definition RuneStart :: "nat \<Rightarrow> bool" where
  "RuneStart b = (\<not> (0x80 \<le> b \<and> b \<le> 0xBF))"

text \<open>\<^verbatim>\<open>utf8.DecodeRuneInString\<close> on the bytes of a string: the code point and its
  width in bytes; an encoding that is not valid UTF-8 decodes as \<^verbatim>\<open>(RuneError, 1)\<close>,
  the empty string as \<^verbatim>\<open>(RuneError, 0)\<close>. The second byte of a sequence must lie in
  the range that \<^verbatim>\<open>acceptRanges\<close> gives for the first.\<close>

definition acceptLo :: "nat \<Rightarrow> nat" where
  "acceptLo b0 = (if b0 = 0xE0 then 0xA0 else if b0 = 0xF0 then 0x90 else 0x80)"

definition acceptHi :: "nat \<Rightarrow> nat" where
  "acceptHi b0 = (if b0 = 0xED then 0x9F else if b0 = 0xF4 then 0x8F else 0xBF)"

definition locb :: "nat \<Rightarrow> bool" where
  "locb b = (0x80 \<le> b \<and> b \<le> 0xBF)"

fun DecodeRune :: "nat list \<Rightarrow> nat \<times> nat" where
  "DecodeRune [] = (RuneError, 0)"
| "DecodeRune (b0 # bs) =
     (if b0 < RuneSelf then (b0, 1)
      else if 0xC2 \<le> b0 \<and> b0 \<le> 0xDF then
        (case bs of
           b1 # _ \<Rightarrow>
             if locb b1 then ((b0 - 0xC0) * 64 + (b1 - 0x80), 2) else (RuneError, 1)
         | _ \<Rightarrow> (RuneError, 1))
      else if 0xE0 \<le> b0 \<and> b0 \<le> 0xEF then
        (case bs of
           b1 # b2 # _ \<Rightarrow>
             if acceptLo b0 \<le> b1 \<and> b1 \<le> acceptHi b0 \<and> locb b2
             then ((b0 - 0xE0) * 4096 + (b1 - 0x80) * 64 + (b2 - 0x80), 3)
             else (RuneError, 1)
         | _ \<Rightarrow> (RuneError, 1))
      else if 0xF0 \<le> b0 \<and> b0 \<le> 0xF4 then
        (case bs of
           b1 # b2 # b3 # _ \<Rightarrow>
             if acceptLo b0 \<le> b1 \<and> b1 \<le> acceptHi b0 \<and> locb b2 \<and> locb b3
             then ((b0 - 0xF0) * 262144 + (b1 - 0x80) * 4096 + (b2 - 0x80) * 64 + (b3 - 0x80), 4)
             else (RuneError, 1)
         | _ \<Rightarrow> (RuneError, 1))
      else (RuneError, 1))"

definition DecodeRuneInString :: "string \<Rightarrow> nat \<times> nat" where
  "DecodeRuneInString s = DecodeRune (map byte s)"

text \<open>\<^verbatim>\<open>utf8.DecodeLastRuneInString\<close>: Go walks back from the last byte over at most
  three bytes to a byte that starts a rune, decodes from there, and answers
  \<^verbatim>\<open>(RuneError, 1)\<close> unless the decoded rune ends exactly at the end of the string.
  \<open>lastRuneStart s k n\<close> is that backward walk (the loop
  \<^verbatim>\<open>for start--; start >= lim; start--\<close>): \<open>n\<close> is the current \<^verbatim>\<open>start\<close> and \<open>k\<close>
  the number of positions left above \<^verbatim>\<open>lim\<close>; a walk that finds no such byte ends one
  below \<^verbatim>\<open>lim\<close>, and a negative \<^verbatim>\<open>start\<close> is set to 0.\<close>

fun lastRuneStart :: "string \<Rightarrow> nat \<Rightarrow> nat \<Rightarrow> nat" where
  "lastRuneStart s 0 n = n - 1"
| "lastRuneStart s (Suc k) n =
     (if n = 0 then 0
      else if RuneStart (byte (s ! (n - 1))) then n - 1
      else lastRuneStart s k (n - 1))"

definition DecodeLastRuneInString :: "string \<Rightarrow> nat \<times> nat" where
  "DecodeLastRuneInString s =
     (if s = [] then (RuneError, 0)
      else if byte (last s) < RuneSelf then (byte (last s), 1)
      else
        (let start = lastRuneStart s (Suc (Suc (Suc 0))) (length s - 1);
             (r, size) = DecodeRuneInString (drop start s)
         in if start + size \<noteq> length s then (RuneError, 1) else (r, size)))"

lemma DecodeRune_size: "bs \<noteq> [] \<Longrightarrow> 0 < snd (DecodeRune bs) \<and> snd (DecodeRune bs) \<le> length bs"
  by (cases bs) (auto split: list.splits)

lemma lastRuneStart_le: "lastRuneStart s k n \<le> n"
  by (induction k arbitrary: n) (auto intro: le_trans [OF _ diff_le_self])

lemma DecodeLastRune_size: "s \<noteq> [] \<Longrightarrow> 0 < snd (DecodeLastRuneInString s)"
proof -
  assume ne: "s \<noteq> []"
  let ?start = "lastRuneStart s (Suc (Suc (Suc 0))) (length s - 1)"
  have lt: "?start < length s"
  proof -
    have "0 < length s" using ne by simp
    with lastRuneStart_le [of s "Suc (Suc (Suc 0))" "length s - 1"] show ?thesis by linarith
  qed
  obtain r n where d: "DecodeRuneInString (drop ?start s) = (r, n)"
    by (cases "DecodeRuneInString (drop ?start s)")
  show ?thesis
    using ne lt d by (auto simp: DecodeLastRuneInString_def Let_def)
qed

text \<open>\<^verbatim>\<open>strings.TrimLeftFunc\<close> and \<^verbatim>\<open>strings.TrimRightFunc\<close>, with their
  helpers \<^verbatim>\<open>indexFunc\<close> and \<^verbatim>\<open>lastIndexFunc\<close> (both called with
  \<^verbatim>\<open>truth = false\<close>): the index of the first, or last, rune that \<open>f\<close> rejects,
  \<open>- 1\<close> when there is none. \<^verbatim>\<open>range\<close> over a string decodes it rune by rune, \<open>i\<close>
  being the index reached; \<^verbatim>\<open>lastIndexFunc\<close> decodes the last rune of \<^verbatim>\<open>s[0:i]\<close>, and
  its argument here is that prefix.\<close>

function indexFunc :: "string \<Rightarrow> (nat \<Rightarrow> bool) \<Rightarrow> nat \<Rightarrow> int" where
  "indexFunc s f i =
     (if length s \<le> i then - 1
      else (let (r, size) = DecodeRuneInString (drop i s)
            in if \<not> f r then int i else indexFunc s f (i + size)))"
  by pat_completeness auto
termination
proof (relation "measure (\<lambda>(s, f, i). length s - i)", goal_cases)
  case 1
  show ?case by simp
next
  case (2 s f i x r size)
  then have "snd (DecodeRune (map byte (drop i s))) = size"
    by (metis DecodeRuneInString_def snd_conv)
  with 2 show ?case
    using DecodeRune_size [of "map byte (drop i s)"] by auto
qed

function lastIndexFunc :: "string \<Rightarrow> (nat \<Rightarrow> bool) \<Rightarrow> int" where
  "lastIndexFunc s f =
     (if s = [] then - 1
      else (let (r, size) = DecodeLastRuneInString s
            in if \<not> f r then int (length s - size)
               else lastIndexFunc (take (length s - size) s) f))"
  by pat_completeness auto
termination
proof (relation "measure (\<lambda>(s, f). length s)", goal_cases)
  case 1
  show ?case by simp
next
  case (2 s f x r size)
  then have "snd (DecodeLastRuneInString s) = size"
    by (metis snd_conv)
  with 2 show ?case
    using DecodeLastRune_size [of s] by auto
qed

declare indexFunc.simps [simp del] lastIndexFunc.simps [simp del]

definition TrimLeftFunc :: "string \<Rightarrow> (nat \<Rightarrow> bool) \<Rightarrow> string" where
  "TrimLeftFunc s f = (let i = indexFunc s f 0 in if i = - 1 then [] else drop (nat i) s)"

definition TrimRightFunc :: "string \<Rightarrow> (nat \<Rightarrow> bool) \<Rightarrow> string" where
  "TrimRightFunc s f =
     (let i = lastIndexFunc s f in
      if 0 \<le> i \<and> RuneSelf \<le> byte (s ! nat i)
      then take (nat i + snd (DecodeRuneInString (drop (nat i) s))) s
      else take (nat (i + 1)) s)"

text \<open>\<^verbatim>\<open>strings.TrimSpace\<close>: ASCII spaces are skipped byte by byte from the left, then
  from the right; the first byte at or above \<^verbatim>\<open>RuneSelf\<close> hands what is left over to
  \<^verbatim>\<open>TrimFunc\<close>, or to \<^verbatim>\<open>TrimRightFunc\<close>, with \<^verbatim>\<open>unicode.IsSpace\<close>.\<close>

fun trimSpaceRight :: "string \<Rightarrow> string" where
  "trimSpaceRight [] = []"
| "trimSpaceRight (c # cs) =
     (let s = c # cs in
      if RuneSelf \<le> byte (last s) then TrimRightFunc s IsSpace
      else if asciiSpace (last s) then trimSpaceRight (butlast s)
      else s)"

fun TrimSpace :: "string \<Rightarrow> string" where
  "TrimSpace [] = []"
| "TrimSpace (c # cs) =
     (if RuneSelf \<le> byte c then TrimRightFunc (TrimLeftFunc (c # cs) IsSpace) IsSpace
      else if asciiSpace c then TrimSpace cs
      else trimSpaceRight (c # cs))"

text \<open>\<^verbatim>\<open>strings.Fields\<close>: the maximal runs of non-space bytes of an ASCII string; a
  string with a byte at or above \<^verbatim>\<open>RuneSelf\<close> is split by
  \<^verbatim>\<open>FieldsFunc(s, unicode.IsSpace)\<close>, rune by rune. \<open>cur\<close> is the field being read
  (empty between fields).\<close>

fun fieldsASCII :: "string \<Rightarrow> string \<Rightarrow> string list" where
  "fieldsASCII cur [] = (if cur = [] then [] else [cur])"
| "fieldsASCII cur (c # cs) =
     (if asciiSpace c then (if cur = [] then fieldsASCII [] cs else cur # fieldsASCII [] cs)
      else fieldsASCII (cur @ [c]) cs)"

function FieldsFunc :: "string \<Rightarrow> string \<Rightarrow> string list" where
  "FieldsFunc cur s =
     (if s = [] then (if cur = [] then [] else [cur])
      else (let (r, size) = DecodeRuneInString s in
            if IsSpace r then (if cur = [] then FieldsFunc [] (drop size s)
                               else cur # FieldsFunc [] (drop size s))
            else FieldsFunc (cur @ take size s) (drop size s)))"
  by pat_completeness auto
termination
proof (relation "measure (\<lambda>(cur, s). length s)", goal_cases)
  case 1
  show ?case by simp
next
  case (2 cur s x r size)
  then have "snd (DecodeRune (map byte s)) = size"
    by (metis DecodeRuneInString_def snd_conv)
  with 2 show ?case
    using DecodeRune_size [of "map byte s"] by auto
next
  case (3 cur s x r size)
  then have "snd (DecodeRune (map byte s)) = size"
    by (metis DecodeRuneInString_def snd_conv)
  with 3 show ?case
    using DecodeRune_size [of "map byte s"] by auto
next
  case (4 cur s x r size)
  then have "snd (DecodeRune (map byte s)) = size"
    by (metis DecodeRuneInString_def snd_conv)
  with 4 show ?case
    using DecodeRune_size [of "map byte s"] by auto
qed

declare FieldsFunc.simps [simp del]

definition strings_Fields :: "string \<Rightarrow> string list" where
  "strings_Fields s = (if isASCII s then fieldsASCII [] s else FieldsFunc [] s)"

text \<open>\<^verbatim>\<open>strings.Split(rule, "=")[0]\<close>: the part of the token before its first
  \<^verbatim>\<open>=\<close>, the whole token when it has none.\<close>

definition SplitEq0 :: "string \<Rightarrow> string" where
  "SplitEq0 rule = takeWhile (\<lambda>c. c \<noteq> CHR ''='') rule"

text \<open>\<^verbatim>\<open>strings.ReplaceAll(s, old, "")\<close> for a one-byte \<^verbatim>\<open>old\<close>, the only use the
  repository makes of it.\<close>

definition ReplaceAllEmpty :: "string \<Rightarrow> char \<Rightarrow> string" where
  "ReplaceAllEmpty s old = filter (\<lambda>c. c \<noteq> old) s"

text \<open>\<^verbatim>\<open>utf8.ValidRune\<close>: a code point up to \<^verbatim>\<open>MaxRune\<close> that is no surrogate half.\<close>

definition ValidRune :: "nat \<Rightarrow> bool" where
  "ValidRune r = (r < 0xD800 \<or> (0xDFFF < r \<and> r \<le> 0x10FFFF))"

text \<open>The bytes that \<^verbatim>\<open>utf8.AppendRune\<close>, and so \<^verbatim>\<open>Builder.WriteRune\<close>, writes for a
  rune: one byte up to \<^verbatim>\<open>0x7F\<close>, two up to \<^verbatim>\<open>0x7FF\<close>, three up to \<^verbatim>\<open>0xFFFF\<close>, four
  above; a rune above \<^verbatim>\<open>MaxRune\<close> or in the surrogate range is written as
  \<^verbatim>\<open>RuneError\<close>.\<close>

definition encode3 :: "nat \<Rightarrow> string" where
  "encode3 r = [char_of (0xE0 + r div 4096), char_of (0x80 + r div 64 mod 64), char_of (0x80 + r mod 64)]"

definition EncodeRune :: "nat \<Rightarrow> string" where
  "EncodeRune r =
     (if r \<le> 0x7F then [char_of r]
      else if r \<le> 0x7FF then [char_of (0xC0 + r div 64), char_of (0x80 + r mod 64)]
      else if 0x10FFFF < r \<or> (0xD800 \<le> r \<and> r \<le> 0xDFFF) then encode3 RuneError
      else if r \<le> 0xFFFF then encode3 r
      else [char_of (0xF0 + r div 262144), char_of (0x80 + r div 4096 mod 64),
            char_of (0x80 + r div 64 mod 64), char_of (0x80 + r mod 64)])"

text \<open>\<^verbatim>\<open>strings.Map(mapping, s)\<close>. The first loop (\<open>mapHead\<close>, \<open>i\<close> being the index
  reached) passes over the runes that \<^verbatim>\<open>mapping\<close> leaves as they are; a byte that is
  no valid encoding counts as changed. If it reaches the end, the string is returned as
  it is. Otherwise the bytes before \<open>i\<close> are kept, and from \<open>i\<close> on the second loop
  (\<open>mapTail\<close>) writes the image of every rune. The mappings used here never answer a
  negative rune, so no rune is dropped.\<close>

function mapTail :: "(nat \<Rightarrow> nat) \<Rightarrow> string \<Rightarrow> string" where
  "mapTail mapping s =
     (if s = [] then []
      else (let (c, width) = DecodeRuneInString s
            in EncodeRune (mapping c) @ mapTail mapping (drop width s)))"
  by pat_completeness auto
termination
proof (relation "measure (\<lambda>(mapping, s). length s)", goal_cases)
  case 1
  show ?case by simp
next
  case (2 mapping s x c width)
  then have "snd (DecodeRune (map byte s)) = width"
    by (metis DecodeRuneInString_def snd_conv)
  with 2 show ?case
    using DecodeRune_size [of "map byte s"] by auto
qed

function mapHead :: "(nat \<Rightarrow> nat) \<Rightarrow> string \<Rightarrow> nat \<Rightarrow> string" where
  "mapHead mapping s i =
     (if length s \<le> i then s
      else (let (c, width) = DecodeRuneInString (drop i s);
                r = mapping c
            in if r = c \<and> (c \<noteq> RuneError \<or> width \<noteq> 1) then mapHead mapping s (i + width)
               else take i s @ EncodeRune r @ mapTail mapping (drop (i + width) s)))"
  by pat_completeness auto
termination
proof (relation "measure (\<lambda>(mapping, s, i). length s - i)", goal_cases)
  case 1
  show ?case by simp
next
  case (2 mapping s i x c width r)
  then have "snd (DecodeRune (map byte (drop i s))) = width"
    by (metis DecodeRuneInString_def snd_conv)
  with 2 show ?case
    using DecodeRune_size [of "map byte (drop i s)"] by auto
qed

declare mapTail.simps [simp del] mapHead.simps [simp del]

definition strings_Map :: "(nat \<Rightarrow> nat) \<Rightarrow> string \<Rightarrow> string" where
  "strings_Map mapping s = mapHead mapping s 0"

text \<open>\<^verbatim>\<open>unicode.ToLower\<close> and \<^verbatim>\<open>unicode.ToUpper\<close>: up to \<^verbatim>\<open>MaxASCII\<close> the letters are
  shifted by \<^verbatim>\<open>'a' - 'A'\<close>; above, Go looks the rune up in the table \<^verbatim>\<open>CaseRanges\<close>
  (\<^verbatim>\<open>unicode.To(unicode.LowerCase, r)\<close>). The Unicode tables belong to Go's library,
  not to the repository: the two maps over them are a parameter of the model.\<close>

record unicode_case =
  LowerCase :: "nat \<Rightarrow> nat"
  UpperCase :: "nat \<Rightarrow> nat"

definition unicode_ToLower :: "unicode_case \<Rightarrow> nat \<Rightarrow> nat" where
  "unicode_ToLower U r =
     (if r \<le> 0x7F then (if 0x41 \<le> r \<and> r \<le> 0x5A then r + 32 else r) else LowerCase U r)"

definition unicode_ToUpper :: "unicode_case \<Rightarrow> nat \<Rightarrow> nat" where
  "unicode_ToUpper U r =
     (if r \<le> 0x7F then (if 0x61 \<le> r \<and> r \<le> 0x7A then r - 32 else r) else UpperCase U r)"

text \<open>\<^verbatim>\<open>strings.ToLower\<close> and \<^verbatim>\<open>strings.ToUpper\<close>. On a string of ASCII bytes
  Go maps byte by byte (\<^verbatim>\<open>c += 'a' - 'A'\<close> for an upper-case letter); on any other
  string it calls \<^verbatim>\<open>strings.Map\<close> with \<^verbatim>\<open>unicode.ToLower\<close> or
  \<^verbatim>\<open>unicode.ToUpper\<close>.\<close>

definition lowerByte :: "char \<Rightarrow> char" where
  "lowerByte c = (if 65 \<le> byte c \<and> byte c \<le> 90 then char_of (byte c + 32) else c)"

definition upperByte :: "char \<Rightarrow> char" where
  "upperByte c = (if 97 \<le> byte c \<and> byte c \<le> 122 then char_of (byte c - 32) else c)"

definition ToLower :: "unicode_case \<Rightarrow> string \<Rightarrow> string" where
  "ToLower U s = (if isASCII s then map lowerByte s else strings_Map (unicode_ToLower U) s)"

definition ToUpper :: "unicode_case \<Rightarrow> string \<Rightarrow> string" where
  "ToUpper U s = (if isASCII s then map upperByte s else strings_Map (unicode_ToUpper U) s)"

text \<open>\<^verbatim>\<open>strings.HasPrefix\<close>, \<^verbatim>\<open>strings.TrimPrefix\<close> and \<^verbatim>\<open>strings.Contains\<close>; the
  empty string is a prefix and a substring of every string.\<close>

definition HasPrefix :: "string \<Rightarrow> string \<Rightarrow> bool" where
  "HasPrefix s prefix = (take (length prefix) s = prefix)"

definition TrimPrefix :: "string \<Rightarrow> string \<Rightarrow> string" where
  "TrimPrefix s prefix = (if HasPrefix s prefix then drop (length prefix) s else s)"

fun Contains :: "string \<Rightarrow> string \<Rightarrow> bool" where
  "Contains [] substr = (substr = [])"
| "Contains (c # cs) substr = (HasPrefix (c # cs) substr \<or> Contains cs substr)"

text \<open>\<^verbatim>\<open>strings.Split(s, sep)\<close> for a one-byte \<^verbatim>\<open>sep\<close>: the parts of \<open>s\<close> between the
  occurrences of \<^verbatim>\<open>sep\<close>, one more than there are occurrences. \<open>cur\<close> is the part being
  read.\<close>

fun splitOn :: "char \<Rightarrow> string \<Rightarrow> string \<Rightarrow> string list" where
  "splitOn sep cur [] = [cur]"
| "splitOn sep cur (c # cs) = (if c = sep then cur # splitOn sep [] cs else splitOn sep (cur @ [c]) cs)"

definition strings_Split :: "string \<Rightarrow> char \<Rightarrow> string list" where
  "strings_Split s sep = splitOn sep [] s"

text \<open>\<^verbatim>\<open>regexp.Compile\<close> and \<^verbatim>\<open>MatchString\<close>. The syntax of regular expressions
  belongs to Go's library. The model reads the expressions written with \<^verbatim>\<open>^\<close>, \<^verbatim>\<open>$\<close>,
  letters, digits and spaces only: there a letter, digit or space stands for itself,
  \<^verbatim>\<open>^\<close> holds at the beginning of the text only and \<^verbatim>\<open>$\<close> at its end only (no flag is
  set), and the expression matches a string when its items hold one after the other
  from some place of the string on. What \<^verbatim>\<open>Compile\<close> answers on any other expression
  (\<open>None\<close> for an error, the compiled expression's \<^verbatim>\<open>MatchString\<close> otherwise) is a
  parameter of the model.\<close>

datatype re_op = OpBeginText | OpEndText | OpLiteral char

definition literalChar :: "char \<Rightarrow> bool" where
  "literalChar c =
     ((48 \<le> byte c \<and> byte c \<le> 57) \<or> (65 \<le> byte c \<and> byte c \<le> 90) \<or> (97 \<le> byte c \<and> byte c \<le> 122)
      \<or> byte c = 32)"

fun parseSimple :: "string \<Rightarrow> re_op list option" where
  "parseSimple [] = Some []"
| "parseSimple (c # cs) =
     (case parseSimple cs of
        None \<Rightarrow> None
      | Some ops \<Rightarrow>
          if c = CHR ''^'' then Some (OpBeginText # ops)
          else if c = CHR ''$'' then Some (OpEndText # ops)
          else if literalChar c then Some (OpLiteral c # ops)
          else None)"

text \<open>\<open>matchHere ops atStart s\<close>: the items hold one after the other on \<open>s\<close>, the rest of
  the text from the place reached; \<open>atStart\<close> tells whether that place is the beginning
  of the text. \<open>matchFrom\<close> tries every place.\<close>

fun matchHere :: "re_op list \<Rightarrow> bool \<Rightarrow> string \<Rightarrow> bool" where
  "matchHere [] atStart s = True"
| "matchHere (OpBeginText # ops) atStart s = (atStart \<and> matchHere ops atStart s)"
| "matchHere (OpEndText # ops) atStart s = (s = [] \<and> matchHere ops atStart s)"
| "matchHere (OpLiteral c # ops) atStart s =
     (case s of [] \<Rightarrow> False | d # ds \<Rightarrow> c = d \<and> matchHere ops False ds)"

fun matchFrom :: "re_op list \<Rightarrow> bool \<Rightarrow> string \<Rightarrow> bool" where
  "matchFrom ops atStart [] = matchHere ops atStart []"
| "matchFrom ops atStart (d # ds) = (matchHere ops atStart (d # ds) \<or> matchFrom ops False ds)"

record regexp_lib =
  CompileOther :: "string \<Rightarrow> (string \<Rightarrow> bool) option"

definition regexp_Compile :: "regexp_lib \<Rightarrow> string \<Rightarrow> (string \<Rightarrow> bool) option" where
  "regexp_Compile R expr =
     (case parseSimple expr of
        Some ops \<Rightarrow> Some (matchFrom ops True)
      | None \<Rightarrow> CompileOther R expr)"

section \<open>Records as package reflect shows them\<close>

text \<open>
  The engine reads its input through \<^verbatim>\<open>reflect\<close>. A value is modelled by its kind and
  contents; a struct value carries, for each field in declaration order, the
  \<^verbatim>\<open>reflect.StructField\<close> of its type (name, package path, tag, embedding) and the
  field's value. A pointer owns what it points to (\<open>None\<close> is the nil pointer): the
  model has no sharing and no cycles. The kinds are those of \<^verbatim>\<open>reflect.Kind\<close>, written
  with a \<open>K\<close> in front.
\<close>

datatype kind =
    KInvalid | KBool | KInt | KInt8 | KInt16 | KInt32 | KInt64
  | KUint | KUint8 | KUint16 | KUint32 | KUint64 | KUintptr
  | KFloat32 | KFloat64 | KComplex64 | KComplex128
  | KArray | KChan | KFunc | KInterface | KMap | KPointer | KSlice | KString | KStruct
  | KUnsafePointer

datatype int_kind = TInt | TInt8 | TInt16 | TInt32 | TInt64

datatype uint_kind = TUint | TUint8 | TUint16 | TUint32 | TUint64 | TUintptr

datatype float_kind = TFloat32 | TFloat64

datatype other_kind = TComplex64 | TComplex128 | TChan | TFunc | TInterface | TUnsafePointer

text \<open>A floating-point number: \<open>mantissa * 2 ^ exponent\<close>, an infinity with its sign,
  or not a number. Both zeros have the mantissa 0.\<close>

datatype float64 = FFinite (mantissa: int) (exponent: int) | FInf bool | FNaN

definition float_is_zero :: "float64 \<Rightarrow> bool" where
  "float_is_zero x = (case x of FFinite m e \<Rightarrow> m = 0 | _ \<Rightarrow> False)"

text \<open>The tag of a field, as \<^verbatim>\<open>StructTag.Get\<close> reads it: the conventional
  \<^verbatim>\<open>key:"value"\<close> pairs in the order written; \<^verbatim>\<open>Get\<close> answers the value of the
  first pair with the key, the empty string when there is none.\<close>

type_synonym StructTag = "(string \<times> string) list"

definition Tag_Get :: "StructTag \<Rightarrow> string \<Rightarrow> string" where
  "Tag_Get tag key = (case map_of tag key of None \<Rightarrow> [] | Some v \<Rightarrow> v)"

record StructField =
  Name :: string
  PkgPath :: string
  Tag :: StructTag
  Anonymous :: bool

definition IsExported :: "StructField \<Rightarrow> bool" where
  "IsExported f = (PkgPath f = [])"

datatype val =
    VBool bool
  | VInt int_kind int
  | VUint uint_kind nat
  | VFloat float_kind float64
  | VString string
  | VArray "val list"
  | VSlice "val list"
  | VPtr "val option"
  | VStruct "(StructField \<times> val) list"
  | VMap "(val \<times> val) list"
  | VOther other_kind

fun Kind :: "val \<Rightarrow> kind" where
  "Kind (VBool b) = KBool"
| "Kind (VInt k n) = (case k of TInt \<Rightarrow> KInt | TInt8 \<Rightarrow> KInt8 | TInt16 \<Rightarrow> KInt16
                      | TInt32 \<Rightarrow> KInt32 | TInt64 \<Rightarrow> KInt64)"
| "Kind (VUint k n) = (case k of TUint \<Rightarrow> KUint | TUint8 \<Rightarrow> KUint8 | TUint16 \<Rightarrow> KUint16
                      | TUint32 \<Rightarrow> KUint32 | TUint64 \<Rightarrow> KUint64 | TUintptr \<Rightarrow> KUintptr)"
| "Kind (VFloat k x) = (case k of TFloat32 \<Rightarrow> KFloat32 | TFloat64 \<Rightarrow> KFloat64)"
| "Kind (VString s) = KString"
| "Kind (VArray xs) = KArray"
| "Kind (VSlice xs) = KSlice"
| "Kind (VPtr p) = KPointer"
| "Kind (VStruct fs) = KStruct"
| "Kind (VMap m) = KMap"
| "Kind (VOther k) = (case k of TComplex64 \<Rightarrow> KComplex64 | TComplex128 \<Rightarrow> KComplex128
                      | TChan \<Rightarrow> KChan | TFunc \<Rightarrow> KFunc | TInterface \<Rightarrow> KInterface
                      | TUnsafePointer \<Rightarrow> KUnsafePointer)"

text \<open>The flag bits of a \<^verbatim>\<open>reflect.Value\<close> that decide \<^verbatim>\<open>CanSet\<close>: the value is
  addressable, and it was not reached through an unexported field (\<^verbatim>\<open>flagStickyRO\<close>
  for a plain field, \<^verbatim>\<open>flagEmbedRO\<close> for an embedded one). \<^verbatim>\<open>Field\<close>, \<^verbatim>\<open>Elem\<close> and
  \<^verbatim>\<open>Index\<close> derive the flags of what they return as package \<^verbatim>\<open>reflect\<close> does.\<close>

record flag =
  flagAddr :: bool
  flagStickyRO :: bool
  flagEmbedRO :: bool

definition CanSet :: "flag \<Rightarrow> bool" where
  "CanSet fl = (flagAddr fl \<and> \<not> (flagStickyRO fl \<or> flagEmbedRO fl))"

definition Field_flag :: "flag \<Rightarrow> StructField \<Rightarrow> flag" where
  "Field_flag fl f =
     \<lparr>flagAddr = flagAddr fl,
      flagStickyRO = (flagStickyRO fl \<or> (\<not> IsExported f \<and> \<not> Anonymous f)),
      flagEmbedRO = (\<not> IsExported f \<and> Anonymous f)\<rparr>"

definition Elem_flag :: "flag \<Rightarrow> flag" where
  "Elem_flag fl = fl\<lparr>flagAddr := True\<rparr>"

definition Index_flag :: "flag \<Rightarrow> flag" where
  "Index_flag fl =
     \<lparr>flagAddr = True, flagStickyRO = (flagStickyRO fl \<or> flagEmbedRO fl), flagEmbedRO = False\<rparr>"

text \<open>\<^verbatim>\<open>reflect.ValueOf(dto)\<close>: the value an interface holds is neither addressable nor
  read-only.\<close>

definition ValueOf_flag :: flag where
  "ValueOf_flag = \<lparr>flagAddr = False, flagStickyRO = False, flagEmbedRO = False\<rparr>"

section \<open>Errors (err.go, types.go)\<close>

text \<open>\<^verbatim>\<open>Err.Fields\<close> is a Go map from field path to messages. It is modelled as an
  association list with one entry per key, read through \<^const>\<open>map_of\<close>; the order of the
  entries stands for nothing in Go. An \<^verbatim>\<open>error\<close> is \<open>None\<close> (nil) or an \<^verbatim>\<open>*Err\<close>.\<close>

type_synonym violations = "(string \<times> string list) list"

record Err =
  Msg :: string
  Fields :: violations

definition NewErr :: "string \<Rightarrow> violations \<Rightarrow> Err" where
  "NewErr msg fs = \<lparr>Msg = msg, Fields = fs\<rparr>"

text \<open>Reading a key of a Go map that has no entry for it gives the nil slice.\<close>

definition lookup :: "violations \<Rightarrow> string \<Rightarrow> string list" where
  "lookup m k = (case map_of m k of None \<Rightarrow> [] | Some v \<Rightarrow> v)"

section \<open>The transformation engine (transformer.go)\<close>

text \<open>A \<^verbatim>\<open>TransformFunc\<close> gets a settable \<^verbatim>\<open>reflect.Value\<close>, may set it, and returns
  an error or nil: here, a function from the value to the value it leaves and the message
  of its error. The registry \<^verbatim>\<open>transformers\<close> is a map from names to such functions;
  \<^verbatim>\<open>AddTransformer\<close> stores or replaces a binding.\<close>

type_synonym TransformFunc = "val \<Rightarrow> val \<times> string option"

type_synonym transformers = "string \<rightharpoonup> TransformFunc"

definition AddTransformer :: "string \<Rightarrow> TransformFunc \<Rightarrow> transformers \<Rightarrow> transformers" where
  "AddTransformer name fn reg = reg(name \<mapsto> fn)"

definition priorityLookup :: "string \<rightharpoonup> int" where
  "priorityLookup =
     [''trim'' \<mapsto> 1, ''remove_whitespace'' \<mapsto> 2, ''lowercase'' \<mapsto> 3, ''uppercase'' \<mapsto> 4]"

text \<open>\<^verbatim>\<open>order[name]\<close>: reading a Go map at a key it does not hold gives the zero
  value.\<close>

definition priority :: "string \<Rightarrow> int" where
  "priority name = (case priorityLookup name of None \<Rightarrow> 0 | Some p \<Rightarrow> p)"

text \<open>\<^verbatim>\<open>orderTransforms\<close>: the two nested loops over the copy \<^verbatim>\<open>ordered\<close>, the inner
  one from \<open>j\<close> on, the outer one from \<open>i\<close> on.\<close>

function orderInner :: "nat \<Rightarrow> nat \<Rightarrow> string list \<Rightarrow> string list" where
  "orderInner i j ordered =
     (if j < length ordered then
        orderInner i (j + 1)
          (if priority (ordered ! i) > priority (ordered ! j)
           then ordered[i := ordered ! j, j := ordered ! i]
           else ordered)
      else ordered)"
  by pat_completeness auto
termination
  by (relation "measure (\<lambda>(i, j, ordered). length ordered - j)") auto

declare orderInner.simps [simp del]

lemma length_orderInner [simp]: "length (orderInner i j ordered) = length ordered"
  by (induction i j ordered rule: orderInner.induct) (subst orderInner.simps, auto)

function orderOuter :: "nat \<Rightarrow> string list \<Rightarrow> string list" where
  "orderOuter i ordered =
     (if i + 1 < length ordered then orderOuter (i + 1) (orderInner i (i + 1) ordered)
      else ordered)"
  by pat_completeness auto
termination
  by (relation "measure (\<lambda>(i, ordered). length ordered - i)") auto

declare orderOuter.simps [simp del]

definition orderTransforms :: "string list \<Rightarrow> string list" where
  "orderTransforms transforms = orderOuter 0 transforms"

text \<open>The loop of \<^verbatim>\<open>applyTransformations\<close> over the ordered names: a name the registry
  does not hold is passed over, the first error ends the loop.\<close>

fun applyOrdered :: "transformers \<Rightarrow> string list \<Rightarrow> val \<Rightarrow> val \<times> string option" where
  "applyOrdered reg [] v = (v, None)"
| "applyOrdered reg (t # ts) v =
     (case reg t of
        Some fn \<Rightarrow>
          (case fn v of
             (v', Some err) \<Rightarrow> (v', Some err)
           | (v', None) \<Rightarrow> applyOrdered reg ts v')
      | None \<Rightarrow> applyOrdered reg ts v)"

definition applyTransformations ::
  "transformers \<Rightarrow> flag \<Rightarrow> val \<Rightarrow> StructField \<Rightarrow> val \<times> string option" where
  "applyTransformations reg fl v field =
     (if \<not> CanSet fl then (v, None)
      else
        (let transformTag = Tag_Get (Tag field) ''transform'' in
         if transformTag = [] then (v, None)
         else applyOrdered reg (orderTransforms (strings_Fields transformTag)) v))"

text \<open>\<^verbatim>\<open>fmt.Sprintf("%d", j)\<close> for an index.\<close>

fun decimal :: "nat \<Rightarrow> string" where
  "decimal n = (if n < 10 then [char_of (48 + n)] else decimal (n div 10) @ [char_of (48 + n mod 10)])"

declare decimal.simps [simp del]

text \<open>\<^verbatim>\<open>for k, v := range vErr.Fields { violations[prefix + k] = v }\<close>\<close>

definition mergeFields :: "string \<Rightarrow> violations \<Rightarrow> violations \<Rightarrow> violations" where
  "mergeFields prefix fs violations = fold (\<lambda>(k, v). AList.update (prefix @ k) v) fs violations"

text \<open>\<^verbatim>\<open>violations[field.Name] = append(violations[field.Name], err.Error())\<close>\<close>

definition appendViolation :: "string \<Rightarrow> string \<Rightarrow> violations \<Rightarrow> violations" where
  "appendViolation name msg violations = AList.update name (lookup violations name @ [msg]) violations"

text \<open>The last statement of a turn of the loop of \<^verbatim>\<open>transformStruct\<close>:
  \<^verbatim>\<open>if err := applyTransformations(fieldVal, field); err != nil { ... }\<close>\<close>

definition applyField ::
  "transformers \<Rightarrow> flag \<Rightarrow> StructField \<Rightarrow> val \<Rightarrow> violations \<Rightarrow> val \<times> violations" where
  "applyField reg fl field fieldVal violations =
     (case applyTransformations reg fl fieldVal field of
        (v', Some err) \<Rightarrow> (v', appendViolation (Name field) err violations)
      | (v', None) \<Rightarrow> (v', violations))"

text \<open>
  \<^verbatim>\<open>transformStruct\<close> changes the struct in place and returns an error: the model
  returns the fields it leaves and the error. \<open>transformFields\<close> is the loop over the
  fields with the map \<^verbatim>\<open>violations\<close> built so far; \<open>transformField\<close> is one turn of it,
  for the field \<^verbatim>\<open>field\<close> with value \<^verbatim>\<open>fieldVal\<close>; \<open>transformElems\<close> is the loop over the
  elements of a slice from index \<open>j\<close> on. A \<^verbatim>\<open>continue\<close> leaves the turn before the
  field's own tag is read. The three kinds tested are exclusive, so the three
  \<^verbatim>\<open>if\<close> statements are the branches of one case analysis. \<open>fl\<close> holds the flag bits of
  the struct value \<^verbatim>\<open>val\<close>.
\<close>

lemma size_fields_le:
  "size_list (\<lambda>p. size (snd p)) fs \<le> size_list (size_prod (\<lambda>_. 0) size) fs"
  by (induction fs) auto

function (sequential) transformStruct :: "transformers \<Rightarrow> flag \<Rightarrow> (StructField \<times> val) list \<Rightarrow> (StructField \<times> val) list \<times> Err option"
  and transformFields :: "transformers \<Rightarrow> flag \<Rightarrow> (StructField \<times> val) list \<Rightarrow> violations \<Rightarrow> (StructField \<times> val) list \<times> violations"
  and transformField :: "transformers \<Rightarrow> flag \<Rightarrow> StructField \<Rightarrow> val \<Rightarrow> violations \<Rightarrow> val \<times> violations"
  and transformElems :: "transformers \<Rightarrow> flag \<Rightarrow> string \<Rightarrow> nat \<Rightarrow> val list \<Rightarrow> violations \<Rightarrow> val list \<times> violations"
where
  "transformStruct reg fl fs =
     (case transformFields reg fl fs [] of
        (fs', violations) \<Rightarrow>
          if length violations > 0 then (fs', Some (NewErr ''transformation failed'' violations))
          else (fs', None))"
| "transformFields reg fl [] violations = ([], violations)"
| "transformFields reg fl (f # rest) violations =
     (case transformField reg fl (fst f) (snd f) violations of
        (fieldVal', violations') \<Rightarrow>
          (case transformFields reg fl rest violations' of
             (rest', violations'') \<Rightarrow> ((fst f, fieldVal') # rest', violations'')))"
| "transformField reg fl field fieldVal violations =
     (case fieldVal of
        VStruct fs \<Rightarrow>
          (case transformStruct reg (Field_flag fl field) fs of
             (fs', Some vErr) \<Rightarrow>
               (VStruct fs', mergeFields (Name field @ ''.'') (Fields vErr) violations)
           | (fs', None) \<Rightarrow>
               applyField reg (Field_flag fl field) field (VStruct fs') violations)
      | VPtr (Some (VStruct fs)) \<Rightarrow>
          (case transformStruct reg (Elem_flag (Field_flag fl field)) fs of
             (fs', Some vErr) \<Rightarrow>
               (VPtr (Some (VStruct fs')),
                mergeFields (Name field @ ''.'') (Fields vErr) violations)
           | (fs', None) \<Rightarrow>
               applyField reg (Field_flag fl field) field (VPtr (Some (VStruct fs'))) violations)
      | VSlice elems \<Rightarrow>
          (case transformElems reg (Index_flag (Field_flag fl field)) (Name field) 0 elems
                  violations of
             (elems', violations') \<Rightarrow>
               applyField reg (Field_flag fl field) field (VSlice elems') violations')
      | _ \<Rightarrow> applyField reg (Field_flag fl field) field fieldVal violations)"
| "transformElems reg fl name j [] violations = ([], violations)"
| "transformElems reg fl name j (elem # elems) violations =
     (case elem of
        VStruct fs \<Rightarrow>
          (case transformStruct reg fl fs of
             (fs', Some vErr) \<Rightarrow>
               (case transformElems reg fl name (j + 1) elems
                       (mergeFields (name @ ''['' @ decimal j @ ''].'') (Fields vErr) violations) of
                  (elems', violations') \<Rightarrow> (VStruct fs' # elems', violations'))
           | (fs', None) \<Rightarrow>
               (case transformElems reg fl name (j + 1) elems violations of
                  (elems', violations') \<Rightarrow> (VStruct fs' # elems', violations')))
      | _ \<Rightarrow>
          (case transformElems reg fl name (j + 1) elems violations of
             (elems', violations') \<Rightarrow> (elem # elems', violations')))"

  by pat_completeness auto

termination
  apply (relation "measure (\<lambda>x. case x of
        Inl (Inl (reg, fl, fs)) \<Rightarrow> 2 * size_list (\<lambda>p. size (snd p)) fs + 1
      | Inl (Inr (reg, fl, fs, v)) \<Rightarrow> 2 * size_list (\<lambda>p. size (snd p)) fs
      | Inr (Inl (reg, fl, field, fieldVal, v)) \<Rightarrow> 2 * size fieldVal
      | Inr (Inr (reg, fl, name, j, elems, v)) \<Rightarrow> 2 * size_list size elems)")
          apply auto
  subgoal for fs using size_fields_le [of fs] by linarith
  subgoal for fs using size_fields_le [of fs] by linarith
  subgoal for elems fs using size_fields_le [of fs] by linarith
  done

declare transformStruct.simps [simp del] transformField.simps [simp del]

text \<open>\<^verbatim>\<open>Transform\<close>. The input \<^verbatim>\<open>dto\<close> is an interface value: \<open>None\<close> is the nil
  interface. The model returns the input as the call leaves it, and the error.
  \<^verbatim>\<open>val.Elem()\<close> of a nil pointer is the zero \<^verbatim>\<open>Value\<close>, of kind \<^verbatim>\<open>Invalid\<close>.\<close>

definition Transform :: "transformers \<Rightarrow> val option \<Rightarrow> val option \<times> Err option" where
  "Transform reg dto =
     (case dto of
        None \<Rightarrow> (None, Some (NewErr ''invalid payload'' []))
      | Some (VPtr (Some (VStruct fs))) \<Rightarrow>
          (case transformStruct reg (Elem_flag ValueOf_flag) fs of
             (fs', err) \<Rightarrow> (Some (VPtr (Some (VStruct fs'))), err))
      | Some (VStruct fs) \<Rightarrow>
          (case transformStruct reg ValueOf_flag fs of
             (fs', err) \<Rightarrow> (Some (VStruct fs'), err))
      | Some v \<Rightarrow> (Some v, Some (NewErr ''input must be a struct'' [])))"

subsection \<open>The built-in transformers (addStringTransformers)\<close>

text \<open>Each built-in returns nil at once unless the value is a string, and sets the
  string otherwise.\<close>

definition onString :: "(string \<Rightarrow> string) \<Rightarrow> TransformFunc" where
  "onString f v = (case v of VString s \<Rightarrow> (VString (f s), None) | _ \<Rightarrow> (v, None))"

definition removeWhitespace :: "string \<Rightarrow> string" where
  "removeWhitespace s =
     ReplaceAllEmpty (ReplaceAllEmpty (ReplaceAllEmpty (ReplaceAllEmpty s (CHR '' ''))
       (CHR 0x09)) (CHR 0x0A)) (CHR 0x0D)"

definition addStringTransformers :: "unicode_case \<Rightarrow> transformers \<Rightarrow> transformers" where
  "addStringTransformers U reg =
     AddTransformer ''remove_whitespace'' (onString removeWhitespace)
       (AddTransformer ''uppercase'' (onString (ToUpper U))
         (AddTransformer ''lowercase'' (onString (ToLower U))
           (AddTransformer ''trim'' (onString TrimSpace) reg)))"

text \<open>The registry after \<^verbatim>\<open>init()\<close>.\<close>

definition builtin_transformers :: "unicode_case \<Rightarrow> transformers" where
  "builtin_transformers U = addStringTransformers U Map.empty"

section \<open>The validation engine\<close>

text \<open>A \<^verbatim>\<open>ValidationRule\<close> reads the field's value and its \<^verbatim>\<open>StructField\<close> and
  returns its messages. \<^verbatim>\<open>v.rules\<close> is a map from names to rules.\<close>

type_synonym ValidationRule = "val \<Rightarrow> StructField \<Rightarrow> string list"

type_synonym rules = "string \<rightharpoonup> ValidationRule"

definition AddRule :: "string \<Rightarrow> ValidationRule \<Rightarrow> rules \<Rightarrow> rules" where
  "AddRule key rule rs = rs(key \<mapsto> rule)"

text \<open>The inner loop of \<^verbatim>\<open>Validate\<close>, over the tokens of one field's tag, and the
  outer loop, over the fields.\<close>

fun validateRules :: "rules \<Rightarrow> val \<Rightarrow> StructField \<Rightarrow> string list \<Rightarrow> violations \<Rightarrow> violations" where
  "validateRules rs fieldVal field [] violations = violations"
| "validateRules rs fieldVal field (rule # rest) violations =
     (let ruleName = SplitEq0 rule in
      case rs ruleName of
        Some ruleFunc \<Rightarrow>
          (let errs = ruleFunc fieldVal field in
           if length errs > 0
           then validateRules rs fieldVal field rest
                  (AList.update (Name field) (lookup violations (Name field) @ errs) violations)
           else validateRules rs fieldVal field rest violations)
      | None \<Rightarrow> validateRules rs fieldVal field rest violations)"

fun validateFields :: "rules \<Rightarrow> (StructField \<times> val) list \<Rightarrow> violations \<Rightarrow> violations" where
  "validateFields rs [] violations = violations"
| "validateFields rs (f # rest) violations =
     (let validateTag = Tag_Get (Tag (fst f)) ''validator'' in
      if validateTag = [] then validateFields rs rest violations
      else validateFields rs rest
             (validateRules rs (snd f) (fst f) (strings_Fields validateTag) violations))"

definition Validate :: "rules \<Rightarrow> val option \<Rightarrow> bool \<times> Err option" where
  "Validate rs dto =
     (case dto of
        None \<Rightarrow> (False, Some (NewErr ''invalid payload'' []))
      | Some v \<Rightarrow>
          (case (case v of VPtr p \<Rightarrow> p | _ \<Rightarrow> Some v) of
             Some (VStruct fs) \<Rightarrow>
               (let violations = validateFields rs fs [] in
                if length violations > 0
                then (False, Some (NewErr ''validation failed'' violations))
                else (True, None))
           | _ \<Rightarrow> (False, Some (NewErr ''input must be a struct'' []))))"

subsection \<open>The rule required (rules.go, addRequiredRule)\<close>

text \<open>The \<^verbatim>\<open>switch v.Kind()\<close> of the rule: strings, the five signed integer kinds,
  the two float kinds, slices and arrays have a case; every other kind falls through
  the switch.\<close>

definition required :: ValidationRule where
  "required v field =
     (case v of
        VString s \<Rightarrow> (if s = [] then [''field is required''] else [])
      | VInt k n \<Rightarrow> (if n = 0 then [''field is required''] else [])
      | VFloat k x \<Rightarrow> (if float_is_zero x then [''field is required''] else [])
      | VSlice xs \<Rightarrow> (if length xs = 0 then [''field is required''] else [])
      | VArray xs \<Rightarrow> (if length xs = 0 then [''field is required''] else [])
      | _ \<Rightarrow> [])"

definition addRequiredRule :: "rules \<Rightarrow> rules" where
  "addRequiredRule rs = AddRule ''required'' required rs"

subsection \<open>The helper parseParams and the rule pattern (addPatternRules)\<close>

text \<open>\<^verbatim>\<open>parseParams\<close> splits the tag at the commas and each part at the \<^verbatim>\<open>=\<close>; a part
  with exactly one \<^verbatim>\<open>=\<close> binds its left side to its right side, a later binding
  replacing an earlier one.\<close>

definition parseParams :: "string \<Rightarrow> (string \<rightharpoonup> string)" where
  "parseParams tag =
     fold (\<lambda>pair params.
             case strings_Split pair (CHR ''='') of
               [k, v] \<Rightarrow> params(k \<mapsto> v)
             | _ \<Rightarrow> params)
          (strings_Split tag (CHR '',''))
          Map.empty"

text \<open>The rule that \<^verbatim>\<open>addPatternRules\<close> registers under the name \<^verbatim>\<open>pattern\<close>: it
  reads the whole validation tag of the field through \<^verbatim>\<open>parseParams\<close>.\<close>

definition patternRule :: "regexp_lib \<Rightarrow> ValidationRule" where
  "patternRule R v field =
     (case v of
        VString s \<Rightarrow>
          (case parseParams (Tag_Get (Tag field) ''validator'') ''pattern'' of
             None \<Rightarrow> []
           | Some pattern \<Rightarrow>
               (case regexp_Compile R pattern of
                  None \<Rightarrow> []
                | Some re \<Rightarrow> if \<not> re s then [''invalid format''] else []))
      | _ \<Rightarrow> [])"

subsection \<open>The rules contains and starts_with (addCustomStringRules)\<close>

text \<open>Both rules look, among the tokens of the field's validation tag, for the first
  one that begins with their name and \<^verbatim>\<open>=\<close>: \<open>tagParam\<close> is that loop, its answer the
  rest of the token, the empty string when there is no such token. The messages are
  \<^verbatim>\<open>fmt.Sprintf("must contain '%s'", substring)\<close> and
  \<^verbatim>\<open>fmt.Sprintf("must start with '%s'", prefix)\<close>.\<close>

fun tagParam :: "string \<Rightarrow> string list \<Rightarrow> string" where
  "tagParam prefix [] = []"
| "tagParam prefix (rule # rules) =
     (if HasPrefix rule prefix then TrimPrefix rule prefix else tagParam prefix rules)"

definition containsRule :: ValidationRule where
  "containsRule v field =
     (case v of
        VString s \<Rightarrow>
          (let rules = strings_Fields (Tag_Get (Tag field) ''validator'');
               substring = tagParam ''contains='' rules
           in if \<not> Contains s substring
              then [''must contain '' @ [CHR 0x27] @ substring @ [CHR 0x27]]
              else [])
      | _ \<Rightarrow> [])"

definition startsWithRule :: ValidationRule where
  "startsWithRule v field =
     (case v of
        VString s \<Rightarrow>
          (let rules = strings_Fields (Tag_Get (Tag field) ''validator'');
               prefix = tagParam ''starts_with='' rules
           in if \<not> HasPrefix s prefix
              then [''must start with '' @ [CHR 0x27] @ prefix @ [CHR 0x27]]
              else [])
      | _ \<Rightarrow> [])"

definition addCustomStringRules :: "rules \<Rightarrow> rules" where
  "addCustomStringRules rs =
     AddRule ''starts_with'' startsWithRule (AddRule ''contains'' containsRule rs)"

section \<open>Evaluation on concrete inputs\<close>

text \<open>The defining equations that the simplifier unfolds to run the library functions
  and the two engines on a concrete input.\<close>

lemmas string_eval =
  byte_def RuneSelf_def RuneError_def asciiSpace_def IsSpace_def RuneStart_def locb_def
  acceptLo_def acceptHi_def DecodeRuneInString_def DecodeLastRuneInString_def
  indexFunc.simps lastIndexFunc.simps TrimLeftFunc_def TrimRightFunc_def
  strings_Fields_def isASCII_def FieldsFunc.simps SplitEq0_def ReplaceAllEmpty_def
  ToLower_def ToUpper_def lowerByte_def upperByte_def char_of_def bit_0 Let_def
  strings_Map_def mapHead.simps mapTail.simps EncodeRune_def encode3_def
  unicode_ToLower_def unicode_ToUpper_def

lemmas fields_eval = strings_Fields_def isASCII_def byte_def asciiSpace_def RuneSelf_def

lemmas transform_eval =
  applyTransformations_def CanSet_def Tag_Get_def orderTransforms_def orderOuter.simps orderInner.simps
  priority_def priorityLookup_def builtin_transformers_def addStringTransformers_def AddTransformer_def
  onString_def removeWhitespace_def

lemmas struct_eval =
  Transform_def transformStruct.simps transformField.simps applyField_def
  Elem_flag_def Index_flag_def ValueOf_flag_def Field_flag_def IsExported_def
  mergeFields_def appendViolation_def lookup_def NewErr_def decimal.simps

lemmas validate_eval =
  Validate_def Tag_Get_def AddRule_def addRequiredRule_def required_def lookup_def NewErr_def
  float_is_zero_def

section \<open>The order of the transforms\<close>

text \<open>\<open>below i xs\<close>: every element in front of position \<open>i\<close> has a priority no
  greater than that of any element behind it. It holds of the first \<open>i\<close> positions after
  \<open>i\<close> turns of the outer loop.\<close>

definition below :: "nat \<Rightarrow> string list \<Rightarrow> bool" where
  "below i xs = (\<forall>a b. a < i \<and> a < b \<and> b < length xs \<longrightarrow> priority (xs ! a) \<le> priority (xs ! b))"

lemma below_swap:
  assumes "below i xs" "i \<le> u" "u < length xs" "i \<le> w" "w < length xs"
  shows "below i (xs[u := xs ! w, w := xs ! u])"
  using assms unfolding below_def
  by (auto simp: nth_list_update)

lemma below_orderInner: "i < j \<Longrightarrow> i < length xs \<Longrightarrow> below i xs \<Longrightarrow> below i (orderInner i j xs)"
proof (induction i j xs rule: orderInner.induct)
  case (1 i j ordered)
  show ?case
  proof (cases "j < length ordered")
    case True
    let ?next = "if priority (ordered ! i) > priority (ordered ! j)
           then ordered[i := ordered ! j, j := ordered ! i] else ordered"
    have "below i ?next"
      using below_swap [of i ordered i j] 1 True by auto
    then have "below i (orderInner i (j + 1) ?next)"
      using 1 True by auto
    then show ?thesis
      using True by (subst orderInner.simps) simp
  next
    case False
    then show ?thesis using 1 by (subst orderInner.simps) simp
  qed
qed

lemma mset_orderInner: "i < j \<Longrightarrow> mset (orderInner i j xs) = mset xs"
proof (induction i j xs rule: orderInner.induct)
  case (1 i j ordered)
  show ?case
  proof (cases "j < length ordered")
    case True
    let ?next = "if priority (ordered ! i) > priority (ordered ! j)
           then ordered[i := ordered ! j, j := ordered ! i] else ordered"
    have "mset ?next = mset ordered"
      using 1 True mset_swap [of j ordered i] by auto
    moreover have "mset (orderInner i (j + 1) ?next) = mset ?next"
      using 1 True by auto
    ultimately show ?thesis
      using True by (subst orderInner.simps) simp
  next
    case False
    then show ?thesis by (subst orderInner.simps) simp
  qed
qed

text \<open>After the inner loop the element at \<open>i\<close> has the least priority of those behind
  it.\<close>

lemma least_orderInner:
  "i < j \<Longrightarrow> (\<forall>k. i < k \<and> k < j \<longrightarrow> priority (xs ! i) \<le> priority (xs ! k)) \<Longrightarrow>
   i < k \<Longrightarrow> k < length xs \<Longrightarrow>
   priority (orderInner i j xs ! i) \<le> priority (orderInner i j xs ! k)"
proof (induction i j xs rule: orderInner.induct)
  case (1 i j ordered)
  show ?case
  proof (cases "j < length ordered")
    case True
    let ?next = "if priority (ordered ! i) > priority (ordered ! j)
           then ordered[i := ordered ! j, j := ordered ! i] else ordered"
    have inv: "\<forall>k. i < k \<and> k < j + 1 \<longrightarrow> priority (?next ! i) \<le> priority (?next ! k)"
      using 1(2,3) True by (auto simp: nth_list_update less_Suc_eq)
    have "priority (orderInner i (j + 1) ?next ! i) \<le> priority (orderInner i (j + 1) ?next ! k)"
      using 1(1) [OF True _ inv] 1(2,4,5) True by auto
    then show ?thesis
      using True by (subst (1 2) orderInner.simps) simp
  next
    case False
    then show ?thesis using 1 by (subst (1 2) orderInner.simps) auto
  qed
qed

lemma below_orderOuter: "below i xs \<Longrightarrow> below (length xs) (orderOuter i xs)"
proof (induction i xs rule: orderOuter.induct)
  case (1 i ordered)
  show ?case
  proof (cases "i + 1 < length ordered")
    case True
    let ?r = "orderInner i (i + 1) ordered"
    have b: "below i ?r"
      using below_orderInner [of i "i + 1" ordered] 1(2) True by simp
    have "below (i + 1) ?r"
      unfolding below_def
    proof (intro allI impI)
      fix a b assume ab: "a < i + 1 \<and> a < b \<and> b < length ?r"
      show "priority (?r ! a) \<le> priority (?r ! b)"
      proof (cases "a < i")
        case True
        then show ?thesis using b ab by (auto simp: below_def)
      next
        case False
        then have "a = i" using ab by simp
        then show ?thesis
          using least_orderInner [of i "i + 1" ordered b] ab by simp
      qed
    qed
    then have "below (length ?r) (orderOuter (i + 1) ?r)"
      using 1(1) True by simp
    then show ?thesis
      using True by (subst orderOuter.simps) simp
  next
    case False
    then have "below (length ordered) ordered"
      using 1(2) by (auto simp: below_def)
    then show ?thesis
      using False by (subst orderOuter.simps) simp
  qed
qed

lemma length_orderOuter [simp]: "length (orderOuter i xs) = length xs"
  by (induction i xs rule: orderOuter.induct) (subst orderOuter.simps, auto)

lemma mset_orderOuter: "mset (orderOuter i xs) = mset xs"
  by (induction i xs rule: orderOuter.induct) (subst orderOuter.simps, auto simp: mset_orderInner)

lemma sorted_orderTransforms: "sorted (map priority (orderTransforms ts))"
proof -
  have "below 0 ts" by (simp add: below_def)
  then have "below (length ts) (orderOuter 0 ts)"
    by (rule below_orderOuter)
  then show ?thesis
    by (auto simp: orderTransforms_def below_def sorted_iff_nth_mono_less)
qed

lemma mset_orderTransforms: "mset (orderTransforms ts) = mset ts"
  by (simp add: orderTransforms_def mset_orderOuter)

text \<open>The names whose functions the loop of \<^verbatim>\<open>applyTransformations\<close> calls, in the
  order of the calls (\<^verbatim>\<open>fn(v)\<close> in \<^const>\<open>applyOrdered\<close>).\<close>

fun invoked :: "transformers \<Rightarrow> string list \<Rightarrow> val \<Rightarrow> string list" where
  "invoked reg [] v = []"
| "invoked reg (t # ts) v =
     (case reg t of
        Some fn \<Rightarrow>
          (case fn v of
             (v', Some err) \<Rightarrow> [t]
           | (v', None) \<Rightarrow> t # invoked reg ts v')
      | None \<Rightarrow> invoked reg ts v)"

lemma set_invoked: "set (invoked reg ts v) \<subseteq> set ts"
  by (induction ts arbitrary: v) (auto split: option.splits prod.splits)

lemma sorted_invoked:
  "sorted (map priority ts) \<Longrightarrow> sorted (map priority (invoked reg ts v))"
proof (induction ts arbitrary: v)
  case Nil
  then show ?case by simp
next
  case (Cons t ts)
  have "\<forall>x \<in> set (invoked reg ts w). priority t \<le> priority x" for w
    using Cons.prems set_invoked [of reg ts w] by auto
  then show ?case
    using Cons by (auto split: option.splits prod.splits)
qed

lemma sorted_invoked_order:
  "sorted (map priority (invoked reg (orderTransforms ts) v))"
  by (rule sorted_invoked) (rule sorted_orderTransforms)

lemma priority_builtin_pos: "priorityLookup b = Some p \<Longrightarrow> 0 < p"
  by (auto simp: priorityLookup_def split: if_splits)

text \<open>
  Claim C1. Whatever the order of the tokens in a transform tag, \<^verbatim>\<open>trim\<close> is applied
  before \<^verbatim>\<open>lowercase\<close>: in the order \<^verbatim>\<open>orderTransforms\<close> gives, and so in the order of
  the calls of \<^verbatim>\<open>applyTransformations\<close>, no \<^verbatim>\<open>lowercase\<close> stands in front of a
  \<^verbatim>\<open>trim\<close>. A settable string field tagged \<^verbatim>\<open>trim lowercase\<close> or
  \<^verbatim>\<open>lowercase trim\<close> ends as the lower-cased trimmed string under the built-in
  transformers; the value \<^verbatim>\<open>"  ABC  "\<close> ends as \<^verbatim>\<open>"abc"\<close> under both tags.
\<close>

theorem trim_runs_before_lowercase:
  "(\<forall>i j. i < j \<and> j < length (orderTransforms (strings_Fields tag))
        \<and> orderTransforms (strings_Fields tag) ! i = ''lowercase''
        \<longrightarrow> orderTransforms (strings_Fields tag) ! j \<noteq> ''trim'')
   \<and> (\<forall>i j. i < j \<and> j < length (invoked reg (orderTransforms (strings_Fields tag)) v)
        \<and> invoked reg (orderTransforms (strings_Fields tag)) v ! i = ''lowercase''
        \<longrightarrow> invoked reg (orderTransforms (strings_Fields tag)) v ! j \<noteq> ''trim'')
   \<and> (CanSet fl \<and> (Tag_Get (Tag field) ''transform'' = ''trim lowercase''
                    \<or> Tag_Get (Tag field) ''transform'' = ''lowercase trim'')
        \<longrightarrow> applyTransformations (builtin_transformers U) fl (VString s) field
            = (VString (ToLower U (TrimSpace s)), None))"
proof -
  have lt: "priority ''trim'' < priority ''lowercase''"
    by (simp add: priority_def priorityLookup_def)
  have ordered: "xs ! j \<noteq> ''trim''"
    if "sorted (map priority xs)" "i < j" "j < length xs" "xs ! i = ''lowercase''" for xs i j
  proof
    assume "xs ! j = ''trim''"
    moreover have "priority (xs ! i) \<le> priority (xs ! j)"
      using sorted_nth_mono [of "map priority xs" i j] that(1,2,3) by simp
    ultimately show False
      using lt that by simp
  qed
  have o1: "orderTransforms (strings_Fields ''trim lowercase'') = [''trim'', ''lowercase'']"
    by (simp add: fields_eval transform_eval)
  have o2: "orderTransforms (strings_Fields ''lowercase trim'') = [''trim'', ''lowercase'']"
    by (simp add: fields_eval transform_eval)
  have run: "applyOrdered (builtin_transformers U) [''trim'', ''lowercase''] (VString s)
      = (VString (ToLower U (TrimSpace s)), None)"
    by (simp add: builtin_transformers_def addStringTransformers_def AddTransformer_def onString_def)
  have field: "applyTransformations (builtin_transformers U) fl (VString s) field
            = (VString (ToLower U (TrimSpace s)), None)"
    if "CanSet fl" "Tag_Get (Tag field) ''transform'' = ''trim lowercase''
                    \<or> Tag_Get (Tag field) ''transform'' = ''lowercase trim''"
    using that o1 o2 run by (auto simp: applyTransformations_def)
  show ?thesis
    using ordered [OF sorted_orderTransforms [of "strings_Fields tag"]]
      ordered [OF sorted_invoked_order [of reg "strings_Fields tag" v]] field
    by blast
qed

text \<open>The field \<^verbatim>\<open>Hostname\<close> with the value \<^verbatim>\<open>"  ABC  "\<close>, under both tags, and
  \<^verbatim>\<open>Transform\<close> on a pointer to a record with that field.\<close>

theorem trim_runs_before_lowercase_witness:
  "\<forall>U. applyTransformations (builtin_transformers U)
         \<lparr>flagAddr = True, flagStickyRO = False, flagEmbedRO = False\<rparr> (VString ''  ABC  '')
         \<lparr>Name = ''Hostname'', PkgPath = [], Tag = [(''transform'', ''trim lowercase'')], Anonymous = False\<rparr>
       = (VString ''abc'', None)
     \<and> applyTransformations (builtin_transformers U)
         \<lparr>flagAddr = True, flagStickyRO = False, flagEmbedRO = False\<rparr> (VString ''  ABC  '')
         \<lparr>Name = ''Hostname'', PkgPath = [], Tag = [(''transform'', ''lowercase trim'')], Anonymous = False\<rparr>
       = (VString ''abc'', None)
     \<and> Transform (builtin_transformers U)
         (Some (VPtr (Some (VStruct
            [(\<lparr>Name = ''Hostname'', PkgPath = [], Tag = [(''transform'', ''lowercase trim'')], Anonymous = False\<rparr>,
              VString ''  ABC  '')]))))
       = (Some (VPtr (Some (VStruct
            [(\<lparr>Name = ''Hostname'', PkgPath = [], Tag = [(''transform'', ''lowercase trim'')], Anonymous = False\<rparr>,
              VString ''abc'')]))), None)"
proof
  fix U
  let ?fl = "\<lparr>flagAddr = True, flagStickyRO = False, flagEmbedRO = False\<rparr>"
  let ?f1 = "\<lparr>Name = ''Hostname'', PkgPath = [], Tag = [(''transform'', ''trim lowercase'')], Anonymous = False\<rparr>"
  let ?f2 = "\<lparr>Name = ''Hostname'', PkgPath = [], Tag = [(''transform'', ''lowercase trim'')], Anonymous = False\<rparr>"
  have s: "ToLower U (TrimSpace ''  ABC  '') = ''abc''"
    by (simp add: string_eval)
  have a: "applyTransformations (builtin_transformers U) ?fl (VString ''  ABC  '') ?f1 = (VString ''abc'', None)"
    using trim_runs_before_lowercase [of "''x''" Map.empty "VBool True" ?fl ?f1 U "''  ABC  ''"] s
    by (simp add: CanSet_def Tag_Get_def)
  have b: "applyTransformations (builtin_transformers U) ?fl (VString ''  ABC  '') ?f2 = (VString ''abc'', None)"
    using trim_runs_before_lowercase [of "''x''" Map.empty "VBool True" ?fl ?f2 U "''  ABC  ''"] s
    by (simp add: CanSet_def Tag_Get_def)
  have c: "Transform (builtin_transformers U) (Some (VPtr (Some (VStruct [(?f2, VString ''  ABC  '')]))))
       = (Some (VPtr (Some (VStruct [(?f2, VString ''abc'')]))), None)"
    using b by (simp add: Transform_def transformStruct.simps transformField.simps applyField_def
        Elem_flag_def ValueOf_flag_def Field_flag_def IsExported_def)
  show "applyTransformations (builtin_transformers U) ?fl (VString ''  ABC  '') ?f1 = (VString ''abc'', None)
     \<and> applyTransformations (builtin_transformers U) ?fl (VString ''  ABC  '') ?f2 = (VString ''abc'', None)
     \<and> Transform (builtin_transformers U) (Some (VPtr (Some (VStruct [(?f2, VString ''  ABC  '')]))))
       = (Some (VPtr (Some (VStruct [(?f2, VString ''abc'')]))), None)"
    using a b c by blast
qed

text \<open>
  Claim C9. A transform name that the priority table does not list has the priority 0,
  which is below the priority of every listed (built-in) name. So in the order that
  \<^verbatim>\<open>orderTransforms\<close> gives, which keeps every token of the tag, no listed name stands
  in front of an unlisted one, and the loop of \<^verbatim>\<open>applyTransformations\<close> never calls a
  built-in before a registered custom transform of the same tag, whatever the order of
  the tokens in the tag.
\<close>

theorem unlisted_transform_runs_first:
  assumes "priorityLookup c = None" and "priorityLookup b \<noteq> None"
  shows "priority c = 0 \<and> priority c < priority b
    \<and> mset (orderTransforms ts) = mset ts
    \<and> (\<forall>i j. i < j \<and> j < length (orderTransforms ts) \<and> orderTransforms ts ! i = b
           \<longrightarrow> orderTransforms ts ! j \<noteq> c)
    \<and> (\<forall>i j. i < j \<and> j < length (invoked reg (orderTransforms ts) v)
           \<and> invoked reg (orderTransforms ts) v ! i = b
           \<longrightarrow> invoked reg (orderTransforms ts) v ! j \<noteq> c)"
proof -
  have c0: "priority c = 0"
    using assms(1) by (simp add: priority_def)
  obtain p where p: "priorityLookup b = Some p"
    using assms(2) by auto
  then have lt: "priority c < priority b"
    using c0 priority_builtin_pos [OF p] by (simp add: priority_def)
  have ordered: "xs ! j \<noteq> c"
    if "sorted (map priority xs)" "i < j" "j < length xs" "xs ! i = b" for xs i j
  proof
    assume "xs ! j = c"
    moreover have "priority (xs ! i) \<le> priority (xs ! j)"
      using that sorted_iff_nth_mono_less [of "map priority xs"] by auto
    ultimately show False
      using lt that by simp
  qed
  show ?thesis
    using c0 lt mset_orderTransforms [of ts]
      ordered [OF sorted_orderTransforms [of ts]]
      ordered [OF sorted_invoked_order [of reg ts v]]
    by blast
qed

text \<open>The tag \<^verbatim>\<open>transform:"uppercase suffix"\<close>, where \<^verbatim>\<open>suffix\<close> is a custom
  transformer that appends an \<^verbatim>\<open>x\<close>: the custom transformer runs first, so the \<^verbatim>\<open>x\<close>
  is upper-cased with the rest.\<close>

theorem unlisted_transform_runs_first_witness:
  "priorityLookup ''suffix'' = None \<and> priorityLookup ''uppercase'' \<noteq> None
   \<and> priority ''suffix'' < priority ''uppercase''
   \<and> orderTransforms [''uppercase'', ''suffix''] = [''suffix'', ''uppercase'']
   \<and> (\<forall>U. applyTransformations (AddTransformer ''suffix'' (onString (\<lambda>s. s @ ''x'')) (builtin_transformers U))
         \<lparr>flagAddr = True, flagStickyRO = False, flagEmbedRO = False\<rparr>
         (VString ''ab'')
         \<lparr>Name = ''Title'', PkgPath = [], Tag = [(''transform'', ''uppercase suffix'')], Anonymous = False\<rparr>
       = (VString ''ABX'', None))"
proof -
  have a: "priorityLookup ''suffix'' = None" and b: "priorityLookup ''uppercase'' \<noteq> None"
    by (simp_all add: priorityLookup_def)
  show ?thesis
    using unlisted_transform_runs_first [OF a b, of "[''uppercase'', ''suffix'']"] a b
    by (simp add: transform_eval string_eval)
qed

section \<open>When the two engines report failure\<close>

text \<open>The maps of violations only grow: a Go map assignment never removes a key.\<close>

lemma update_not_Nil [simp]: "AList.update k v al \<noteq> []"
  by (cases al) auto

lemma validateRules_Nil_iff:
  "validateRules rs x field toks v = [] \<longleftrightarrow>
     v = [] \<and> (\<forall>tok \<in> set toks. \<forall>rule. rs (SplitEq0 tok) = Some rule \<longrightarrow> rule x field = [])"
  by (induction toks arbitrary: v) (auto simp: Let_def split: option.splits)

lemma validateFields_Nil_iff:
  "validateFields rs fs v = [] \<longleftrightarrow>
     v = [] \<and> (\<forall>f \<in> set fs. \<forall>tok \<in> set (strings_Fields (Tag_Get (Tag (fst f)) ''validator'')).
                 \<forall>rule. rs (SplitEq0 tok) = Some rule \<longrightarrow> rule (snd f) (fst f) = [])"
proof (induction fs arbitrary: v)
  case Nil
  then show ?case by simp
next
  case (Cons f fs)
  have e: "strings_Fields [] = []"
    by (simp add: strings_Fields_def isASCII_def)
  show ?case
    using Cons.IH e by (auto simp: Let_def validateRules_Nil_iff)
qed

lemma validateRules_filter:
  "validateRules rs x field toks v =
   validateRules rs x field (filter (\<lambda>tok. rs (SplitEq0 tok) \<noteq> None) toks) v"
  by (induction toks arbitrary: v) (auto simp: Let_def split: option.splits)

lemma Validate_struct:
  "Validate rs (Some (VStruct fs)) =
     (if validateFields rs fs [] \<noteq> []
      then (False, Some \<lparr>Msg = ''validation failed'', Fields = validateFields rs fs []\<rparr>)
      else (True, None))"
  by (simp add: Validate_def Let_def NewErr_def)

lemma Validate_ptr:
  "Validate rs (Some (VPtr (Some (VStruct fs)))) = Validate rs (Some (VStruct fs))"
  by (simp add: Validate_def)

lemma mergeFields_Nil_iff [simp]: "mergeFields p fs v = [] \<longleftrightarrow> fs = [] \<and> v = []"
proof -
  have "fold (\<lambda>(k, x). AList.update (p @ k) x) fs v = [] \<longleftrightarrow> fs = [] \<and> v = []" for v
    by (induction fs arbitrary: v) (auto split: prod.splits)
  then show ?thesis by (simp add: mergeFields_def)
qed

lemma appendViolation_not_Nil [simp]: "appendViolation name msg v \<noteq> []"
  by (simp add: appendViolation_def)



lemma transformStruct_snd:
  "snd (transformStruct reg fl fs) =
     (if snd (transformFields reg fl fs []) \<noteq> []
      then Some \<lparr>Msg = ''transformation failed'', Fields = snd (transformFields reg fl fs [])\<rparr>
      else None)"
  by (auto simp: transformStruct.simps NewErr_def split: prod.splits)






lemma Transform_struct_snd:
  "snd (Transform reg (Some (VStruct fs))) = snd (transformStruct reg ValueOf_flag fs)"
  by (simp add: Transform_def split: prod.splits)

lemma Transform_ptr_snd:
  "snd (Transform reg (Some (VPtr (Some (VStruct fs))))) = snd (transformStruct reg (Elem_flag ValueOf_flag) fs)"
  by (simp add: Transform_def split: prod.splits)




section \<open>Validation is shallow\<close>

text \<open>Every key of the map that \<^verbatim>\<open>Validate\<close> collects is the name of a field of the
  record itself.\<close>

lemma keys_validateRules:
  "fst ` set (validateRules rs x field toks v) \<subseteq> insert (Name field) (fst ` set v)"
proof (induction toks arbitrary: v)
  case Nil
  then show ?case by auto
next
  case (Cons tok toks)
  let ?up = "\<lambda>errs. AList.update (Name field) (lookup v (Name field) @ errs) v"
  have up: "fst ` set (validateRules rs x field toks (?up errs)) \<subseteq> insert (Name field) (fst ` set v)" for errs
    using Cons.IH [of "?up errs"] by (simp add: dom_update)
  show ?case
    using up Cons.IH [of v] by (simp add: Let_def split: option.splits)
qed

lemma keys_validateFields:
  "fst ` set (validateFields rs fs v) \<subseteq> Name ` fst ` set fs \<union> fst ` set v"
proof (induction fs arbitrary: v)
  case Nil
  then show ?case by simp
next
  case (Cons f fs)
  let ?v' = "validateRules rs (snd f) (fst f) (strings_Fields (Tag_Get (Tag (fst f)) ''validator'')) v"
  have "fst ` set (validateFields rs fs ?v') \<subseteq> Name ` fst ` set fs \<union> fst ` set ?v'"
    by (rule Cons.IH)
  also have "\<dots> \<subseteq> Name ` fst ` set (f # fs) \<union> fst ` set v"
    using keys_validateRules [of rs "snd f" "fst f" "strings_Fields (Tag_Get (Tag (fst f)) ''validator'')" v]
    by auto
  finally have 1: "fst ` set (validateFields rs fs ?v') \<subseteq> Name ` fst ` set (f # fs) \<union> fst ` set v" .
  have 2: "fst ` set (validateFields rs fs v) \<subseteq> Name ` fst ` set (f # fs) \<union> fst ` set v"
    using Cons.IH [of v] by auto
  show ?case
    using 1 2 by (simp add: Let_def)
qed

text \<open>
  Claim C6. \<^verbatim>\<open>Validate\<close> does not recurse: it succeeds exactly when no registered
  rule named in the tag of a field of the record itself answers a message for that
  field (tags of inner fields are never read), every key of a returned error is the name
  of such a field, and a field without a validation tag, whatever it holds, adds
  nothing.
\<close>

theorem validate_is_shallow:
  "(Validate rs (Some (VStruct fs)) = (True, None) \<longleftrightarrow>
      (\<forall>f \<in> set fs. \<forall>tok \<in> set (strings_Fields (Tag_Get (Tag (fst f)) ''validator'')).
           \<forall>rule. rs (SplitEq0 tok) = Some rule \<longrightarrow> rule (snd f) (fst f) = []))
   \<and> Validate rs (Some (VPtr (Some (VStruct fs)))) = Validate rs (Some (VStruct fs))
   \<and> (\<forall>e. snd (Validate rs (Some (VStruct fs))) = Some e \<longrightarrow> fst ` set (Fields e) \<subseteq> Name ` fst ` set fs)
   \<and> (Tag_Get (Tag field) ''validator'' = [] \<longrightarrow>
        validateFields rs ((field, x) # rest) v = validateFields rs rest v)"
proof -
  have "Validate rs (Some (VStruct fs)) = (True, None) \<longleftrightarrow> validateFields rs fs [] = []"
    by (simp add: Validate_struct)
  moreover have "fst ` set (Fields e) \<subseteq> Name ` fst ` set fs"
    if "snd (Validate rs (Some (VStruct fs))) = Some e" for e
  proof -
    have "Fields e = validateFields rs fs []"
      using that by (auto simp: Validate_struct split: if_splits)
    then show ?thesis
      using keys_validateFields [of rs fs "[]"] by simp
  qed
  ultimately show ?thesis
    using validateFields_Nil_iff [of rs fs "[]"] Validate_ptr [of rs fs]
    by simp
qed

text \<open>The inner record, with a required \<^verbatim>\<open>Name\<close> that is empty, fails on its own; a
  record holding it in a struct field, behind a pointer and in a slice passes.\<close>

theorem validate_is_shallow_witness:
  "Validate (addRequiredRule Map.empty)
     (Some (VStruct
        [(\<lparr>Name = ''Name'', PkgPath = [], Tag = [(''validator'', ''required'')], Anonymous = False\<rparr>,
          VString [])]))
     = (False, Some \<lparr>Msg = ''validation failed'', Fields = [(''Name'', [''field is required''])]\<rparr>)
   \<and> Validate (addRequiredRule Map.empty)
     (Some (VStruct
        [(\<lparr>Name = ''Title'', PkgPath = [], Tag = [(''validator'', ''required'')], Anonymous = False\<rparr>,
          VString ''x''),
         (\<lparr>Name = ''Inner'', PkgPath = [], Tag = [], Anonymous = False\<rparr>,
          VStruct
            [(\<lparr>Name = ''Name'', PkgPath = [], Tag = [(''validator'', ''required'')], Anonymous = False\<rparr>,
              VString [])]),
         (\<lparr>Name = ''Ref'', PkgPath = [], Tag = [(''validator'', ''required'')], Anonymous = False\<rparr>,
          VPtr (Some (VStruct
            [(\<lparr>Name = ''Name'', PkgPath = [], Tag = [(''validator'', ''required'')], Anonymous = False\<rparr>,
              VString [])]))),
         (\<lparr>Name = ''Items'', PkgPath = [], Tag = [(''validator'', ''required'')], Anonymous = False\<rparr>,
          VSlice [VStruct
            [(\<lparr>Name = ''Name'', PkgPath = [], Tag = [(''validator'', ''required'')], Anonymous = False\<rparr>,
              VString [])]])]))
     = (True, None)"
proof -
  let ?rs = "addRequiredRule Map.empty"
  let ?name = "\<lparr>Name = ''Name'', PkgPath = [], Tag = [(''validator'', ''required'')], Anonymous = False\<rparr>"
  let ?inner = "[(?name, VString [])]"
  let ?outer = "[(\<lparr>Name = ''Title'', PkgPath = [], Tag = [(''validator'', ''required'')], Anonymous = False\<rparr>,
          VString ''x''),
         (\<lparr>Name = ''Inner'', PkgPath = [], Tag = [], Anonymous = False\<rparr>, VStruct ?inner),
         (\<lparr>Name = ''Ref'', PkgPath = [], Tag = [(''validator'', ''required'')], Anonymous = False\<rparr>,
          VPtr (Some (VStruct ?inner))),
         (\<lparr>Name = ''Items'', PkgPath = [], Tag = [(''validator'', ''required'')], Anonymous = False\<rparr>,
          VSlice [VStruct ?inner])]"
  have inner: "Validate ?rs (Some (VStruct ?inner))
     = (False, Some \<lparr>Msg = ''validation failed'', Fields = [(''Name'', [''field is required''])]\<rparr>)"
    by (simp add: validate_eval fields_eval SplitEq0_def)
  have "\<forall>f \<in> set ?outer. \<forall>tok \<in> set (strings_Fields (Tag_Get (Tag (fst f)) ''validator'')).
           \<forall>rule. ?rs (SplitEq0 tok) = Some rule \<longrightarrow> rule (snd f) (fst f) = []"
    by (simp add: Tag_Get_def AddRule_def addRequiredRule_def required_def fields_eval SplitEq0_def)
  then have "Validate ?rs (Some (VStruct ?outer)) = (True, None)"
    using validate_is_shallow [of ?rs ?outer] by blast
  then show ?thesis
    using inner by simp
qed

section \<open>The loops of the transformation engine, component by component\<close>

text \<open>The two components of the loops, one at a time.\<close>

definition elemViolations :: "transformers \<Rightarrow> flag \<Rightarrow> string \<Rightarrow> nat \<Rightarrow> val \<Rightarrow> violations \<Rightarrow> violations" where
  "elemViolations reg fl name j elem v =
     (case elem of
        VStruct gs \<Rightarrow>
          (case snd (transformStruct reg fl gs) of
             Some e \<Rightarrow> mergeFields (name @ ''['' @ decimal j @ ''].'') (Fields e) v
           | None \<Rightarrow> v)
      | _ \<Rightarrow> v)"

definition elemValue :: "transformers \<Rightarrow> flag \<Rightarrow> val \<Rightarrow> val" where
  "elemValue reg fl elem =
     (case elem of VStruct gs \<Rightarrow> VStruct (fst (transformStruct reg fl gs)) | _ \<Rightarrow> elem)"

lemma transformElems_Cons:
  "transformElems reg fl name j (elem # es) v =
     (elemValue reg fl elem # fst (transformElems reg fl name (j + 1) es (elemViolations reg fl name j elem v)),
      snd (transformElems reg fl name (j + 1) es (elemViolations reg fl name j elem v)))"
  by (simp add: elemValue_def elemViolations_def split_beta split: val.splits option.splits)

lemma snd_transformElems_Cons:
  "snd (transformElems reg fl name j (elem # es) v) =
     snd (transformElems reg fl name (j + 1) es (elemViolations reg fl name j elem v))"
  by (simp only: transformElems_Cons snd_conv)

lemma fst_transformElems:
  "fst (transformElems reg fl name j es v) = map (elemValue reg fl) es"
proof (induction es arbitrary: j v)
  case Nil
  then show ?case by simp
next
  case (Cons elem es)
  then show ?case by (simp only: transformElems_Cons fst_conv list.map)
qed

lemma transformFields_Cons:
  "transformFields reg fl (f # fs) v =
     ((fst f, fst (transformField reg fl (fst f) (snd f) v))
        # fst (transformFields reg fl fs (snd (transformField reg fl (fst f) (snd f) v))),
      snd (transformFields reg fl fs (snd (transformField reg fl (fst f) (snd f) v))))"
  by (simp add: split_beta)

lemma snd_transformFields_Cons:
  "snd (transformFields reg fl (f # fs) v) =
     snd (transformFields reg fl fs (snd (transformField reg fl (fst f) (snd f) v)))"
  by (simp only: transformFields_Cons snd_conv)

lemma fst_transformFields_Cons:
  "fst (transformFields reg fl (f # fs) v) =
     (fst f, fst (transformField reg fl (fst f) (snd f) v))
       # fst (transformFields reg fl fs (snd (transformField reg fl (fst f) (snd f) v)))"
  by (simp only: transformFields_Cons fst_conv)

lemma snd_transformFields_Nil: "snd (transformFields reg fl [] v) = v"
  by simp

lemma snd_transformElems_Nil: "snd (transformElems reg fl name j [] v) = v"
  by simp

lemma keys_mergeFields:
  "fst ` set (mergeFields p fs v) = (\<lambda>k. p @ k) ` fst ` set fs \<union> fst ` set v"
proof -
  have "fst ` set (fold (\<lambda>(k, x). AList.update (p @ k) x) fs v)
      = (\<lambda>k. p @ k) ` fst ` set fs \<union> fst ` set v" for v
    by (induction fs arbitrary: v) (auto simp: dom_update split: prod.splits)
  then show ?thesis by (simp add: mergeFields_def)
qed

lemma keys_appendViolation:
  "fst ` set (appendViolation name msg v) = insert name (fst ` set v)"
  by (simp add: appendViolation_def dom_update)

lemma keys_applyField:
  "fst ` set (snd (applyField reg fl field x v)) =
     (if snd (applyTransformations reg fl x field) \<noteq> None then insert (Name field) (fst ` set v)
      else fst ` set v)"
  by (auto simp: applyField_def keys_appendViolation split: prod.splits option.splits)

lemma keys_elemViolations_mono:
  "fst ` set v \<subseteq> fst ` set (elemViolations reg fl name j elem v)"
  by (auto simp: elemViolations_def keys_mergeFields split: val.splits option.splits)

lemma keys_transformElems_mono:
  "fst ` set v \<subseteq> fst ` set (snd (transformElems reg fl name j es v))"
proof (induction es arbitrary: j v)
  case Nil
  then show ?case by simp
next
  case (Cons elem es)
  have "fst ` set v \<subseteq> fst ` set (elemViolations reg fl name j elem v)"
    by (rule keys_elemViolations_mono)
  also have "\<dots> \<subseteq> fst ` set (snd (transformElems reg fl name (j + 1) es (elemViolations reg fl name j elem v)))"
    by (rule Cons.IH)
  finally show ?case
    by (simp only: snd_transformElems_Cons)
qed

lemma keys_transformElems:
  assumes "i < length es" "es ! i = VStruct gs" "snd (transformStruct reg fl gs) = Some e"
    "k \<in> fst ` set (Fields e)"
  shows "name @ ''['' @ decimal (j + i) @ ''].'' @ k \<in> fst ` set (snd (transformElems reg fl name j es v))"
  using assms(1,2)
proof (induction es arbitrary: i j v)
  case Nil
  then show ?case by simp
next
  case (Cons elem es)
  show ?case
  proof (cases i)
    case 0
    then have "elem = VStruct gs" using Cons.prems by simp
    then have "name @ ''['' @ decimal j @ ''].'' @ k \<in> fst ` set (elemViolations reg fl name j elem v)"
      using assms(3,4) by (auto simp: elemViolations_def keys_mergeFields)
    then show ?thesis
      using 0 keys_transformElems_mono [of "elemViolations reg fl name j elem v" reg fl name "j + 1" es]
      by (auto simp only: snd_transformElems_Cons add_0_right)
  next
    case (Suc i')
    then show ?thesis
      using Cons.IH [of i' "j + 1" "elemViolations reg fl name j elem v"] Cons.prems
      by (simp only: snd_transformElems_Cons) simp
  qed
qed

text \<open>One turn of the loop: the value it leaves and the map it leaves.\<close>

lemma transformField_unfold:
  "transformField reg fl field x v =
     (case x of
        VStruct gs \<Rightarrow>
          (case snd (transformStruct reg (Field_flag fl field) gs) of
             Some e \<Rightarrow>
               (VStruct (fst (transformStruct reg (Field_flag fl field) gs)),
                mergeFields (Name field @ ''.'') (Fields e) v)
           | None \<Rightarrow>
               applyField reg (Field_flag fl field) field
                 (VStruct (fst (transformStruct reg (Field_flag fl field) gs))) v)
      | VPtr (Some (VStruct gs)) \<Rightarrow>
          (case snd (transformStruct reg (Elem_flag (Field_flag fl field)) gs) of
             Some e \<Rightarrow>
               (VPtr (Some (VStruct (fst (transformStruct reg (Elem_flag (Field_flag fl field)) gs)))),
                mergeFields (Name field @ ''.'') (Fields e) v)
           | None \<Rightarrow>
               applyField reg (Field_flag fl field) field
                 (VPtr (Some (VStruct (fst (transformStruct reg (Elem_flag (Field_flag fl field)) gs))))) v)
      | VSlice es \<Rightarrow>
          applyField reg (Field_flag fl field) field
            (VSlice (map (elemValue reg (Index_flag (Field_flag fl field))) es))
            (snd (transformElems reg (Index_flag (Field_flag fl field)) (Name field) 0 es v))
      | _ \<Rightarrow> applyField reg (Field_flag fl field) field x v)"
  by (subst transformField.simps)
    (simp add: split_beta fst_transformElems split: val.splits option.splits)

lemma keys_applyField_mono:
  "fst ` set v \<subseteq> fst ` set (snd (applyField reg fl field x v))"
  by (auto simp: keys_applyField)

lemma keys_transformField_mono:
  "fst ` set v \<subseteq> fst ` set (snd (transformField reg fl field x v))"
proof -
  have slice: "fst ` set v \<subseteq> fst ` set (snd (applyField reg fl' field y (snd (transformElems reg fl'' name 0 es v))))"
    for fl' fl'' y name es
    using keys_transformElems_mono [of v reg fl'' name 0 es]
      keys_applyField_mono [of "snd (transformElems reg fl'' name 0 es v)" reg fl' field y]
    by blast
  show ?thesis
    unfolding transformField_unfold
    using slice keys_applyField_mono [of v reg _ field]
    by (simp add: keys_mergeFields split: val.splits option.splits)
qed

lemma keys_transformFields_mono:
  "fst ` set v \<subseteq> fst ` set (snd (transformFields reg fl fs v))"
proof (induction fs arbitrary: v)
  case Nil
  then show ?case by simp
next
  case (Cons f fs)
  have "fst ` set v \<subseteq> fst ` set (snd (transformField reg fl (fst f) (snd f) v))"
    by (rule keys_transformField_mono)
  also have "\<dots> \<subseteq> fst ` set (snd (transformFields reg fl fs (snd (transformField reg fl (fst f) (snd f) v))))"
    by (rule Cons.IH)
  finally show ?case
    by (simp only: snd_transformFields_Cons)
qed

lemma keys_transformFields_member:
  assumes "(field, x) \<in> set fs" "\<And>w. k \<in> fst ` set (snd (transformField reg fl field x w))"
  shows "k \<in> fst ` set (snd (transformFields reg fl fs v))"
  using assms(1)
proof (induction fs arbitrary: v)
  case Nil
  then show ?case by simp
next
  case (Cons f fs)
  show ?case
  proof (cases "f = (field, x)")
    case True
    then show ?thesis
      using assms(2) [of v] keys_transformFields_mono [of "snd (transformField reg fl field x v)" reg fl fs]
      by (auto simp only: snd_transformFields_Cons fst_conv snd_conv)
  next
    case False
    then show ?thesis
      using Cons by (simp only: snd_transformFields_Cons) simp
  qed
qed


text \<open>The value on which the own tag of a field is processed: what the recursion
  into the field has left; \<open>None\<close> when the turn ends with \<^verbatim>\<open>continue\<close>.\<close>

definition ownInput :: "transformers \<Rightarrow> flag \<Rightarrow> StructField \<Rightarrow> val \<Rightarrow> val option" where
  "ownInput reg fl field x =
     (case x of
        VStruct gs \<Rightarrow>
          (case snd (transformStruct reg (Field_flag fl field) gs) of
             Some e \<Rightarrow> None
           | None \<Rightarrow> Some (VStruct (fst (transformStruct reg (Field_flag fl field) gs))))
      | VPtr (Some (VStruct gs)) \<Rightarrow>
          (case snd (transformStruct reg (Elem_flag (Field_flag fl field)) gs) of
             Some e \<Rightarrow> None
           | None \<Rightarrow>
               Some (VPtr (Some (VStruct (fst (transformStruct reg (Elem_flag (Field_flag fl field)) gs))))))
      | VSlice es \<Rightarrow> Some (VSlice (map (elemValue reg (Index_flag (Field_flag fl field))) es))
      | _ \<Rightarrow> Some x)"

text \<open>\<open>failure_path reg fl fs p\<close>: \<open>p\<close> is the path, from the struct with the fields
  \<open>fs\<close>, of a field on which a transform fails: the field itself, or a failing field
  inside a struct field, behind a pointer field, or inside the element \<open>j\<close> of a slice
  field.\<close>

inductive failure_path :: "transformers \<Rightarrow> flag \<Rightarrow> (StructField \<times> val) list \<Rightarrow> string \<Rightarrow> bool"
  for reg :: transformers
where
  own: "(field, x) \<in> set fs \<Longrightarrow> ownInput reg fl field x = Some y \<Longrightarrow>
        snd (applyTransformations reg (Field_flag fl field) y field) = Some msg \<Longrightarrow>
        failure_path reg fl fs (Name field)"
| in_struct: "(field, VStruct gs) \<in> set fs \<Longrightarrow>
        failure_path reg (Field_flag fl field) gs p \<Longrightarrow>
        failure_path reg fl fs (Name field @ ''.'' @ p)"
| in_pointer: "(field, VPtr (Some (VStruct gs))) \<in> set fs \<Longrightarrow>
        failure_path reg (Elem_flag (Field_flag fl field)) gs p \<Longrightarrow>
        failure_path reg fl fs (Name field @ ''.'' @ p)"
| in_slice: "(field, VSlice es) \<in> set fs \<Longrightarrow> j < length es \<Longrightarrow> es ! j = VStruct gs \<Longrightarrow>
        failure_path reg (Index_flag (Field_flag fl field)) gs p \<Longrightarrow>
        failure_path reg fl fs (Name field @ ''['' @ decimal j @ ''].'' @ p)"

lemma transformField_ownInput:
  "ownInput reg fl field x = Some y \<Longrightarrow>
   \<exists>w'. transformField reg fl field x w = applyField reg (Field_flag fl field) field y w'"
  by (auto simp: ownInput_def transformField_unfold split: val.splits option.splits)

lemma error_of_key:
  assumes "k \<in> fst ` set (snd (transformFields reg fl fs []))"
  shows "\<exists>e. snd (transformStruct reg fl fs) = Some e \<and> k \<in> fst ` set (Fields e)"
proof -
  have "snd (transformFields reg fl fs []) \<noteq> []"
    using assms by auto
  then show ?thesis
    using assms by (simp add: transformStruct_snd)
qed

text \<open>Every path of a failing field is a key of the error.\<close>

lemma failure_path_key:
  assumes "failure_path reg fl fs p"
  shows "\<exists>e. snd (transformStruct reg fl fs) = Some e \<and> p \<in> fst ` set (Fields e)"
  using assms
proof (induction rule: failure_path.induct)
  case (own field x fs fl y msg)
  have "Name field \<in> fst ` set (snd (transformField reg fl field x w))" for w
    using transformField_ownInput [OF own(2), of w] own(3)
    by (auto simp: keys_applyField)
  then have "Name field \<in> fst ` set (snd (transformFields reg fl fs []))"
    using own(1) by (rule keys_transformFields_member [rotated])
  then show ?case by (rule error_of_key)
next
  case (in_struct field gs fs fl p)
  then obtain e where e: "snd (transformStruct reg (Field_flag fl field) gs) = Some e"
    "p \<in> fst ` set (Fields e)" by blast
  have "Name field @ ''.'' @ p \<in> fst ` set (snd (transformField reg fl field (VStruct gs) w))" for w
    using e by (simp add: transformField_unfold keys_mergeFields)
  then have "Name field @ ''.'' @ p \<in> fst ` set (snd (transformFields reg fl fs []))"
    using in_struct(1) by (rule keys_transformFields_member [rotated])
  then show ?case by (rule error_of_key)
next
  case (in_pointer field gs fs fl p)
  then obtain e where e: "snd (transformStruct reg (Elem_flag (Field_flag fl field)) gs) = Some e"
    "p \<in> fst ` set (Fields e)" by blast
  have "Name field @ ''.'' @ p \<in> fst ` set (snd (transformField reg fl field (VPtr (Some (VStruct gs))) w))" for w
    using e by (simp add: transformField_unfold keys_mergeFields)
  then have "Name field @ ''.'' @ p \<in> fst ` set (snd (transformFields reg fl fs []))"
    using in_pointer(1) by (rule keys_transformFields_member [rotated])
  then show ?case by (rule error_of_key)
next
  case (in_slice field es fs j gs fl p)
  then obtain e where e: "snd (transformStruct reg (Index_flag (Field_flag fl field)) gs) = Some e"
    "p \<in> fst ` set (Fields e)" by blast
  have "Name field @ ''['' @ decimal j @ ''].'' @ p \<in> fst ` set (snd (transformField reg fl field (VSlice es) w))" for w
    using keys_transformElems [OF in_slice(2,3) e, of "Name field" 0 w]
      keys_applyField_mono [of "snd (transformElems reg (Index_flag (Field_flag fl field)) (Name field) 0 es w)"
        reg "Field_flag fl field" field]
    by (auto simp: transformField_unfold)
  then have "Name field @ ''['' @ decimal j @ ''].'' @ p \<in> fst ` set (snd (transformFields reg fl fs []))"
    using in_slice(1) by (rule keys_transformFields_member [rotated])
  then show ?case by (rule error_of_key)
qed


section \<open>The own tag of a field and the recursion into it\<close>

text \<open>What the recursion into a field leaves as the field's value (the value itself
  when the field is not recursed into), and whether the turn for the field ends with
  \<^verbatim>\<open>continue\<close>: the recursion into a struct, or into the struct behind a pointer, has
  returned an error.\<close>

definition recursed :: "transformers \<Rightarrow> flag \<Rightarrow> StructField \<Rightarrow> val \<Rightarrow> val" where
  "recursed reg fl field x =
     (case x of
        VStruct gs \<Rightarrow> VStruct (fst (transformStruct reg (Field_flag fl field) gs))
      | VPtr (Some (VStruct gs)) \<Rightarrow>
          VPtr (Some (VStruct (fst (transformStruct reg (Elem_flag (Field_flag fl field)) gs))))
      | VSlice es \<Rightarrow> VSlice (map (elemValue reg (Index_flag (Field_flag fl field))) es)
      | _ \<Rightarrow> x)"

definition recursionFailed :: "transformers \<Rightarrow> flag \<Rightarrow> StructField \<Rightarrow> val \<Rightarrow> bool" where
  "recursionFailed reg fl field x =
     (case x of
        VStruct gs \<Rightarrow> snd (transformStruct reg (Field_flag fl field) gs) \<noteq> None
      | VPtr (Some (VStruct gs)) \<Rightarrow>
          snd (transformStruct reg (Elem_flag (Field_flag fl field)) gs) \<noteq> None
      | _ \<Rightarrow> False)"

text \<open>A field that \<^verbatim>\<open>transformStruct\<close> recurses into: a struct, a non-nil pointer to a
  struct, or a slice with a struct among its elements.\<close>

definition recursesInto :: "val \<Rightarrow> bool" where
  "recursesInto x =
     (case x of
        VStruct gs \<Rightarrow> True
      | VPtr (Some (VStruct gs)) \<Rightarrow> True
      | VSlice es \<Rightarrow> list_ex (\<lambda>elem. case elem of VStruct gs \<Rightarrow> True | _ \<Rightarrow> False) es
      | _ \<Rightarrow> False)"

lemma ownInput_recursed:
  "ownInput reg fl field x =
     (if recursionFailed reg fl field x then None else Some (recursed reg fl field x))"
  by (auto simp: ownInput_def recursionFailed_def recursed_def split: val.splits option.splits)

lemma fst_applyField:
  "fst (applyField reg fl field x v) = fst (applyTransformations reg fl x field)"
  by (auto simp: applyField_def split: prod.splits option.splits)

lemma fst_transformField:
  "fst (transformField reg fl field x v) =
     (if recursionFailed reg fl field x then recursed reg fl field x
      else fst (applyTransformations reg (Field_flag fl field) (recursed reg fl field x) field))"
  by (auto simp: transformField_unfold recursionFailed_def recursed_def fst_applyField
      split: val.splits option.splits)

lemma fst_transformFields:
  "fst (transformFields reg fl fs v) =
     map (\<lambda>f. (fst f, fst (transformField reg fl (fst f) (snd f) []))) fs"
proof (induction fs arbitrary: v)
  case Nil
  then show ?case by simp
next
  case (Cons f fs)
  have "fst (transformField reg fl (fst f) (snd f) v) = fst (transformField reg fl (fst f) (snd f) [])"
    by (simp only: fst_transformField)
  then show ?case
    using Cons.IH by (simp only: fst_transformFields_Cons list.map)
qed

lemma fst_transformStruct:
  "fst (transformStruct reg fl fs) = fst (transformFields reg fl fs [])"
  by (simp add: transformStruct.simps split_beta)

lemma elemValue_no_struct:
  "\<not> list_ex (\<lambda>elem. case elem of VStruct gs \<Rightarrow> True | _ \<Rightarrow> False) es \<Longrightarrow>
   map (elemValue reg fl) es = es"
  by (induction es) (auto simp: elemValue_def split: val.splits)

lemma elemViolations_no_struct:
  "\<not> list_ex (\<lambda>elem. case elem of VStruct gs \<Rightarrow> True | _ \<Rightarrow> False) es \<Longrightarrow>
   snd (transformElems reg fl name j es v) = v"
proof (induction es arbitrary: j v)
  case Nil
  then show ?case by simp
next
  case (Cons elem es)
  then have "elemViolations reg fl name j elem v = v"
    by (auto simp: elemViolations_def split: val.splits)
  then show ?case
    using Cons by (simp only: snd_transformElems_Cons) simp
qed

lemma recursed_id: "\<not> recursesInto x \<Longrightarrow> recursed reg fl field x = x"
  by (auto simp: recursesInto_def recursed_def elemValue_no_struct split: val.splits option.splits)

lemma applyTransformations_no_tag:
  "Tag_Get (Tag field) ''transform'' = [] \<Longrightarrow> applyTransformations reg fl x field = (x, None)"
  by (simp add: applyTransformations_def)

text \<open>
  Claim C4, as the code has it. \<^verbatim>\<open>transformStruct\<close> processes the own transform tag of
  a field after the recursion into it, on the value the recursion has left, unless the
  field is a struct, or a non-nil pointer to a struct, and the recursion into it has
  returned an error: then the turn ends with \<^verbatim>\<open>continue\<close>, the field keeps the value the
  recursion has left and only the prefixed nested violations are recorded. For a slice
  field the own tag is processed whatever the recursion into its elements has returned.
  An error of the own tag, where it is processed, is recorded under the field's name.
\<close>

theorem own_tag_processed_unless_recursion_failed:
  "fst (transformStruct reg fl fs) =
     map (\<lambda>f. (fst f,
                if recursionFailed reg fl (fst f) (snd f) then recursed reg fl (fst f) (snd f)
                else fst (applyTransformations reg (Field_flag fl (fst f))
                            (recursed reg fl (fst f) (snd f)) (fst f)))) fs
   \<and> \<not> recursionFailed reg fl field (VSlice es)
   \<and> (recursionFailed reg fl field (VStruct gs) \<longleftrightarrow>
        snd (transformStruct reg (Field_flag fl field) gs) \<noteq> None)
   \<and> (recursionFailed reg fl field (VPtr (Some (VStruct gs))) \<longleftrightarrow>
        snd (transformStruct reg (Elem_flag (Field_flag fl field)) gs) \<noteq> None)
   \<and> ((field, x) \<in> set fs \<and> \<not> recursionFailed reg fl field x
        \<and> snd (applyTransformations reg (Field_flag fl field) (recursed reg fl field x) field) = Some msg
        \<longrightarrow> (\<exists>e. snd (transformStruct reg fl fs) = Some e \<and> Name field \<in> fst ` set (Fields e)))
   \<and> (snd (transformStruct reg (Field_flag fl field) gs) = Some e
        \<longrightarrow> transformField reg fl field (VStruct gs) v
            = (VStruct (fst (transformStruct reg (Field_flag fl field) gs)),
               mergeFields (Name field @ ''.'') (Fields e) v))
   \<and> (snd (transformStruct reg (Elem_flag (Field_flag fl field)) gs) = Some e
        \<longrightarrow> transformField reg fl field (VPtr (Some (VStruct gs))) v
            = (VPtr (Some (VStruct (fst (transformStruct reg (Elem_flag (Field_flag fl field)) gs)))),
               mergeFields (Name field @ ''.'') (Fields e) v))"
proof -
  have vals: "fst (transformStruct reg fl fs) =
     map (\<lambda>f. (fst f,
                if recursionFailed reg fl (fst f) (snd f) then recursed reg fl (fst f) (snd f)
                else fst (applyTransformations reg (Field_flag fl (fst f))
                            (recursed reg fl (fst f) (snd f)) (fst f)))) fs"
    by (simp only: fst_transformStruct fst_transformFields fst_transformField)
  have own: "\<exists>e. snd (transformStruct reg fl fs) = Some e \<and> Name field \<in> fst ` set (Fields e)"
    if "(field, x) \<in> set fs" "\<not> recursionFailed reg fl field x"
      "snd (applyTransformations reg (Field_flag fl field) (recursed reg fl field x) field) = Some msg"
  proof -
    have inp: "ownInput reg fl field x = Some (recursed reg fl field x)"
      using that(2) by (simp add: ownInput_recursed)
    have "Name field \<in> fst ` set (snd (transformField reg fl field x w))" for w
      using transformField_ownInput [OF inp, of w] that(3)
      by (auto simp: keys_applyField)
    then have "Name field \<in> fst ` set (snd (transformFields reg fl fs []))"
      using that(1) by (rule keys_transformFields_member [rotated])
    then show ?thesis by (rule error_of_key)
  qed
  show ?thesis
    using vals own
    by (simp add: recursionFailed_def transformField_unfold)
qed


text \<open>The claim as stated fails: \<^verbatim>\<open>Outer\<close> is a struct field tagged with a transformer
  that always fails, and so is its field \<^verbatim>\<open>Inner\<close>. The recursion fails, and the own tag
  of \<^verbatim>\<open>Outer\<close> is not processed: the error has no entry for \<^verbatim>\<open>Outer\<close>, though its
  own transforms fail when they are run.\<close>

theorem own_tag_skipped_counterexample:
  "snd (Transform (AddTransformer ''fail'' (\<lambda>v. (v, Some ''boom'')) Map.empty)
     (Some (VPtr (Some (VStruct
        [(\<lparr>Name = ''Outer'', PkgPath = [], Tag = [(''transform'', ''fail'')], Anonymous = False\<rparr>,
          VStruct
            [(\<lparr>Name = ''Inner'', PkgPath = [], Tag = [(''transform'', ''fail'')], Anonymous = False\<rparr>,
              VString ''x'')])])))))
     = Some \<lparr>Msg = ''transformation failed'', Fields = [(''Outer.Inner'', [''boom''])]\<rparr>
   \<and> applyTransformations (AddTransformer ''fail'' (\<lambda>v. (v, Some ''boom'')) Map.empty)
       (Field_flag (Elem_flag ValueOf_flag)
          \<lparr>Name = ''Outer'', PkgPath = [], Tag = [(''transform'', ''fail'')], Anonymous = False\<rparr>)
       (VStruct
            [(\<lparr>Name = ''Inner'', PkgPath = [], Tag = [(''transform'', ''fail'')], Anonymous = False\<rparr>,
              VString ''x'')])
       \<lparr>Name = ''Outer'', PkgPath = [], Tag = [(''transform'', ''fail'')], Anonymous = False\<rparr>
     = (VStruct
            [(\<lparr>Name = ''Inner'', PkgPath = [], Tag = [(''transform'', ''fail'')], Anonymous = False\<rparr>,
              VString ''x'')], Some ''boom'')"
  by (simp add: struct_eval transform_eval fields_eval)

text \<open>A slice field with the same tags: the recursion into its element fails, and the
  own tag is processed all the same.\<close>

theorem own_tag_processed_unless_recursion_failed_witness:
  "snd (Transform (AddTransformer ''fail'' (\<lambda>v. (v, Some ''boom'')) Map.empty)
     (Some (VPtr (Some (VStruct
        [(\<lparr>Name = ''Items'', PkgPath = [], Tag = [(''transform'', ''fail'')], Anonymous = False\<rparr>,
          VSlice [VStruct
            [(\<lparr>Name = ''Name'', PkgPath = [], Tag = [(''transform'', ''fail'')], Anonymous = False\<rparr>,
              VString ''x'')]])])))))
     = Some \<lparr>Msg = ''transformation failed'',
              Fields = [(''Items[0].Name'', [''boom'']), (''Items'', [''boom''])]\<rparr>
   \<and> ''Items'' \<in> fst ` set (Fields (the (snd (transformStruct
        (AddTransformer ''fail'' (\<lambda>v. (v, Some ''boom'')) Map.empty) (Elem_flag ValueOf_flag)
        [(\<lparr>Name = ''Items'', PkgPath = [], Tag = [(''transform'', ''fail'')], Anonymous = False\<rparr>,
          VSlice [VStruct
            [(\<lparr>Name = ''Name'', PkgPath = [], Tag = [(''transform'', ''fail'')], Anonymous = False\<rparr>,
              VString ''x'')]])]))))"
proof -
  let ?reg = "AddTransformer ''fail'' (\<lambda>v. (v, Some ''boom'')) Map.empty"
  let ?fl = "Elem_flag ValueOf_flag"
  let ?items = "\<lparr>Name = ''Items'', PkgPath = [], Tag = [(''transform'', ''fail'')], Anonymous = False\<rparr>"
  let ?name = "\<lparr>Name = ''Name'', PkgPath = [], Tag = [(''transform'', ''fail'')], Anonymous = False\<rparr>"
  let ?x = "VSlice [VStruct [(?name, VString ''x'')]]"
  let ?fs = "[(?items, ?x)]"
  have ev: "snd (Transform ?reg (Some (VPtr (Some (VStruct ?fs)))))
     = Some \<lparr>Msg = ''transformation failed'',
              Fields = [(''Items[0].Name'', [''boom'']), (''Items'', [''boom''])]\<rparr>"
    by (simp add: struct_eval transform_eval fields_eval char_of_def bit_0)
  have "snd (applyTransformations ?reg (Field_flag ?fl ?items) (recursed ?reg ?fl ?items ?x) ?items) = Some ''boom''"
    by (simp add: recursed_def elemValue_def struct_eval transform_eval fields_eval)
  moreover have "(?items, ?x) \<in> set ?fs" by simp
  moreover have "\<not> recursionFailed ?reg ?fl ?items ?x"
    by (simp add: recursionFailed_def)
  ultimately have "\<exists>e. snd (transformStruct ?reg ?fl ?fs) = Some e \<and> Name ?items \<in> fst ` set (Fields e)"
    using own_tag_processed_unless_recursion_failed
      [where reg = ?reg and fl = ?fl and fs = ?fs and field = ?items and x = ?x and msg = "''boom''"]
    by blast
  then have "''Items'' \<in> fst ` set (Fields (the (snd (transformStruct ?reg ?fl ?fs))))"
    by auto
  then show ?thesis
    using ev by blast
qed

text \<open>
  Claim C5, as the code has it. For a field whose transform tag is empty or absent,
  \<^verbatim>\<open>applyTransformations\<close> returns nil and leaves the value as it is, so the field
  ends as the recursion into it has left it: unchanged, with no violation, when the field
  is not recursed into (it is not a struct, a non-nil pointer to a struct, or a slice
  holding a struct); a field that is recursed into has its nested fields transformed
  under their own tags.
\<close>

theorem untagged_field_only_recursed:
  "Tag_Get (Tag field) ''transform'' = [] \<longrightarrow>
     applyTransformations reg fl' x field = (x, None)
     \<and> fst (transformField reg fl field x v) = recursed reg fl field x
     \<and> (\<not> recursesInto x \<longrightarrow> transformField reg fl field x v = (x, v))
     \<and> (i < length fs \<and> fs ! i = (field, x) \<and> \<not> recursesInto x
          \<longrightarrow> fst (transformStruct reg fl fs) ! i = (field, x))"
proof
  assume tag: "Tag_Get (Tag field) ''transform'' = []"
  have a: "applyTransformations reg fl'' y field = (y, None)" for fl'' y
    using tag by (rule applyTransformations_no_tag)
  have b: "fst (transformField reg fl field x v) = recursed reg fl field x" for v
    by (simp add: fst_transformField a)
  have c: "transformField reg fl field x w = (x, w)" if "\<not> recursesInto x" for w
  proof -
    have "snd (transformField reg fl field x w) = w"
      using that
      by (auto simp: transformField_unfold recursesInto_def applyField_def a elemViolations_no_struct
          split: val.splits option.splits)
    then show ?thesis
      using b [of w] recursed_id [OF that] by (simp add: prod_eq_iff)
  qed
  have d: "fst (transformStruct reg fl fs) ! i = (field, x)"
    if "i < length fs" "fs ! i = (field, x)" "\<not> recursesInto x"
    using that c [OF that(3), of "[]"]
    by (simp add: fst_transformStruct fst_transformFields)
  show "applyTransformations reg fl' x field = (x, None)
     \<and> fst (transformField reg fl field x v) = recursed reg fl field x
     \<and> (\<not> recursesInto x \<longrightarrow> transformField reg fl field x v = (x, v))
     \<and> (i < length fs \<and> fs ! i = (field, x) \<and> \<not> recursesInto x
          \<longrightarrow> fst (transformStruct reg fl fs) ! i = (field, x))"
    using a b c d by blast
qed

text \<open>The claim as stated fails: the struct field \<^verbatim>\<open>Inner\<close> has no transform tag, and
  its value changes, because its field \<^verbatim>\<open>Name\<close> is trimmed. The registry holds the
  built-in \<^verbatim>\<open>trim\<close>.\<close>

theorem untagged_field_changed_counterexample:
  "Tag_Get (Tag \<lparr>Name = ''Inner'', PkgPath = [], Tag = [], Anonymous = False\<rparr>) ''transform'' = []
   \<and> Transform (AddTransformer ''trim'' (onString TrimSpace) Map.empty)
     (Some (VPtr (Some (VStruct
        [(\<lparr>Name = ''Inner'', PkgPath = [], Tag = [], Anonymous = False\<rparr>,
          VStruct
            [(\<lparr>Name = ''Name'', PkgPath = [], Tag = [(''transform'', ''trim'')], Anonymous = False\<rparr>,
              VString ''  x '')])]))))
     = (Some (VPtr (Some (VStruct
        [(\<lparr>Name = ''Inner'', PkgPath = [], Tag = [], Anonymous = False\<rparr>,
          VStruct
            [(\<lparr>Name = ''Name'', PkgPath = [], Tag = [(''transform'', ''trim'')], Anonymous = False\<rparr>,
              VString ''x'')])]))), None)"
  by (simp add: struct_eval transform_eval fields_eval)

text \<open>A string field without a transform tag is unchanged; the struct field without a
  tag ends as the recursion leaves it.\<close>

theorem untagged_field_only_recursed_witness:
  "transformField (AddTransformer ''trim'' (onString TrimSpace) Map.empty) (Elem_flag ValueOf_flag)
     \<lparr>Name = ''Note'', PkgPath = [], Tag = [(''validator'', ''required'')], Anonymous = False\<rparr>
     (VString ''  keep  '') []
     = (VString ''  keep  '', [])
   \<and> fst (transformField (AddTransformer ''trim'' (onString TrimSpace) Map.empty) (Elem_flag ValueOf_flag)
     \<lparr>Name = ''Inner'', PkgPath = [], Tag = [], Anonymous = False\<rparr>
     (VStruct
        [(\<lparr>Name = ''Name'', PkgPath = [], Tag = [(''transform'', ''trim'')], Anonymous = False\<rparr>,
          VString ''  x '')]) [])
     = VStruct
        [(\<lparr>Name = ''Name'', PkgPath = [], Tag = [(''transform'', ''trim'')], Anonymous = False\<rparr>,
          VString ''x'')]"
proof -
  let ?reg = "AddTransformer ''trim'' (onString TrimSpace) Map.empty"
  let ?fl = "Elem_flag ValueOf_flag"
  let ?note = "\<lparr>Name = ''Note'', PkgPath = [], Tag = [(''validator'', ''required'')], Anonymous = False\<rparr>"
  let ?inner = "\<lparr>Name = ''Inner'', PkgPath = [], Tag = [], Anonymous = False\<rparr>"
  let ?name = "\<lparr>Name = ''Name'', PkgPath = [], Tag = [(''transform'', ''trim'')], Anonymous = False\<rparr>"
  have t1: "Tag_Get (Tag ?note) ''transform'' = []" and t2: "Tag_Get (Tag ?inner) ''transform'' = []"
    by (simp_all add: Tag_Get_def)
  have n: "\<not> recursesInto (VString ''  keep  '')"
    by (simp add: recursesInto_def)
  have a: "transformField ?reg ?fl ?note (VString ''  keep  '') [] = (VString ''  keep  '', [])"
    using untagged_field_only_recursed [where field = ?note and x = "VString ''  keep  ''" and reg = ?reg and fl = ?fl and v = "[]"]
      t1 n by blast
  have r: "recursed ?reg ?fl ?inner (VStruct [(?name, VString ''  x '')]) = VStruct [(?name, VString ''x'')]"
    by (simp add: recursed_def struct_eval transform_eval fields_eval)
  have b: "fst (transformField ?reg ?fl ?inner (VStruct [(?name, VString ''  x '')]) [])
      = VStruct [(?name, VString ''x'')]"
    using untagged_field_only_recursed [where field = ?inner and x = "VStruct [(?name, VString ''  x '')]" and reg = ?reg and fl = ?fl and v = "[]"]
      t2 r by simp
  show ?thesis
    using a b by blast
qed

section \<open>Unknown names in a tag\<close>

lemma applyOrdered_unregistered:
  "\<forall>t \<in> set ts. reg t = None \<Longrightarrow> applyOrdered reg ts x = (x, None)"
  by (induction ts) auto

lemma applyOrdered_filter:
  "applyOrdered reg ts x = applyOrdered reg (filter (\<lambda>t. reg t \<noteq> None) ts) x"
  by (induction ts arbitrary: x) (auto split: option.splits prod.splits)

lemma set_orderTransforms: "set (orderTransforms ts) = set ts"
  using mset_orderTransforms [of ts] by (metis set_mset_mset)

subsection \<open>The order of the tokens with and without the unknown names\<close>

text \<open>\<^verbatim>\<open>orderTransforms\<close> is not a stable sort, but it keeps the names of priority 0 in
  the order of the tag, and two names with the same priority above 0 are the same name.
  So taking names out of the tag and ordering what is left gives the same list as
  ordering the tag and taking the names out.\<close>

lemma priority_cases:
  "(x = ''trim'' \<and> priority x = 1) \<or> (x = ''remove_whitespace'' \<and> priority x = 2)
   \<or> (x = ''lowercase'' \<and> priority x = 3) \<or> (x = ''uppercase'' \<and> priority x = 4)
   \<or> priority x = 0"
  by (simp add: priority_def priorityLookup_def)

lemma priority_nonneg: "0 \<le> priority x"
  using priority_cases [of x] by auto

lemma priority_inj: "priority a = priority b \<Longrightarrow> priority a \<noteq> 0 \<Longrightarrow> a = b"
  using priority_cases [of a] priority_cases [of b] by auto

lemma filter_update_none:
  "m < length ys \<Longrightarrow> \<forall>k < m. \<not> Q (ys ! k) \<Longrightarrow> \<not> Q x \<Longrightarrow>
   filter Q (ys[m := x]) = filter Q (drop (Suc m) ys)"
proof (induction ys arbitrary: m)
  case Nil
  then show ?case by simp
next
  case (Cons y ys)
  show ?case
  proof (cases m)
    case 0
    then show ?thesis using Cons.prems by simp
  next
    case (Suc n)
    have "\<not> Q y" using Cons.prems(2) Suc by auto
    moreover have "\<forall>k < n. \<not> Q (ys ! k)" using Cons.prems(2) Suc by auto
    ultimately show ?thesis
      using Cons.IH [of n] Cons.prems Suc by simp
  qed
qed

lemma filter_prefix_none:
  "m < length ys \<Longrightarrow> \<forall>k < m. \<not> Q (ys ! k) \<Longrightarrow>
   filter Q ys = filter Q (ys ! m # drop (Suc m) ys)"
proof (induction ys arbitrary: m)
  case Nil
  then show ?case by simp
next
  case (Cons y ys)
  show ?case
  proof (cases m)
    case 0
    then show ?thesis by simp
  next
    case (Suc n)
    have "\<not> Q y" using Cons.prems(2) Suc by auto
    moreover have "\<forall>k < n. \<not> Q (ys ! k)" using Cons.prems(2) Suc by auto
    ultimately show ?thesis
      using Cons.IH [of n] Cons.prems Suc by simp
  qed
qed

lemma filter_swap:
  assumes "i < j" "j < length xs" "\<forall>k. i \<le> k \<and> k < j \<longrightarrow> \<not> Q (xs ! k)"
  shows "filter Q (xs[i := xs ! j, j := xs ! i]) = filter Q xs"
  using assms
proof (induction xs arbitrary: i j)
  case Nil
  then show ?case by simp
next
  case (Cons x xs)
  obtain m where j: "j = Suc m" using Cons.prems(1) by (cases j) auto
  show ?case
  proof (cases i)
    case 0
    have nx: "\<not> Q x" using Cons.prems(3) 0 Cons.prems(1) by auto
    have none: "\<forall>k < m. \<not> Q (xs ! k)"
    proof (intro allI impI)
      fix k assume "k < m"
      then have "0 \<le> Suc k \<and> Suc k < j" using j by simp
      then have "\<not> Q ((x # xs) ! Suc k)" using Cons.prems(3) 0 by blast
      then show "\<not> Q (xs ! k)" by simp
    qed
    have m: "m < length xs" using Cons.prems(2) j by simp
    have "filter Q ((x # xs)[i := (x # xs) ! j, j := (x # xs) ! i])
        = filter Q (xs ! m # xs[m := x])"
      using 0 j by simp
    also have "\<dots> = filter Q (xs ! m # drop (Suc m) xs)"
      using filter_update_none [OF m none nx] by simp
    also have "\<dots> = filter Q xs"
      using filter_prefix_none [OF m none] by simp
    finally show ?thesis using nx by simp
  next
    case (Suc n)
    have "filter Q (xs[n := xs ! m, m := xs ! n]) = filter Q xs"
    proof (rule Cons.IH)
      show "n < m" using Cons.prems(1) Suc j by simp
      show "m < length xs" using Cons.prems(2) j by simp
      show "\<forall>k. n \<le> k \<and> k < m \<longrightarrow> \<not> Q (xs ! k)"
      proof (intro allI impI)
        fix k assume "n \<le> k \<and> k < m"
        then have "i \<le> Suc k \<and> Suc k < j" using Suc j by simp
        then have "\<not> Q ((x # xs) ! Suc k)" using Cons.prems(3) by blast
        then show "\<not> Q (xs ! k)" by simp
      qed
    qed
    then show ?thesis using Suc j by simp
  qed
qed

lemma filter0_orderInner:
  "i < j \<Longrightarrow> (\<forall>k. i < k \<and> k < j \<longrightarrow> priority (xs ! i) \<le> priority (xs ! k)) \<Longrightarrow>
   filter (\<lambda>x. priority x = 0) (orderInner i j xs) = filter (\<lambda>x. priority x = 0) xs"
proof (induction i j xs rule: orderInner.induct)
  case (1 i j ordered)
  show ?case
  proof (cases "j < length ordered")
    case True
    let ?next = "if priority (ordered ! i) > priority (ordered ! j)
           then ordered[i := ordered ! j, j := ordered ! i] else ordered"
    have inv: "\<forall>k. i < k \<and> k < j + 1 \<longrightarrow> priority (?next ! i) \<le> priority (?next ! k)"
      using 1(2,3) True by (auto simp: nth_list_update less_Suc_eq)
    have same: "filter (\<lambda>x. priority x = 0) ?next = filter (\<lambda>x. priority x = 0) ordered"
    proof (cases "priority (ordered ! i) > priority (ordered ! j)")
      case gt: True
      have pos: "0 < priority (ordered ! i)"
        using gt priority_nonneg [of "ordered ! j"] by linarith
      have "\<forall>k. i \<le> k \<and> k < j \<longrightarrow> \<not> priority (ordered ! k) = 0"
      proof (intro allI impI)
        fix k assume k: "i \<le> k \<and> k < j"
        show "\<not> priority (ordered ! k) = 0"
        proof (cases "k = i")
          case True
          then show ?thesis using pos by simp
        next
          case False
          then have "priority (ordered ! i) \<le> priority (ordered ! k)"
            using 1(3) k by auto
          then show ?thesis using pos by linarith
        qed
      qed
      then show ?thesis
        using filter_swap [of i j ordered "\<lambda>x. priority x = 0"] 1(2) True gt by simp
    next
      case False
      then show ?thesis by simp
    qed
    have "filter (\<lambda>x. priority x = 0) (orderInner i (j + 1) ?next) = filter (\<lambda>x. priority x = 0) ?next"
      using 1(1) [OF True _ inv] 1(2) by simp
    then show ?thesis
      using True same by (subst orderInner.simps) simp
  next
    case False
    then show ?thesis by (subst orderInner.simps) simp
  qed
qed

lemma filter0_orderOuter:
  "filter (\<lambda>x. priority x = 0) (orderOuter i xs) = filter (\<lambda>x. priority x = 0) xs"
proof (induction i xs rule: orderOuter.induct)
  case (1 i ordered)
  show ?case
  proof (cases "i + 1 < length ordered")
    case True
    have "filter (\<lambda>x. priority x = 0) (orderInner i (i + 1) ordered) = filter (\<lambda>x. priority x = 0) ordered"
      by (rule filter0_orderInner) auto
    then show ?thesis
      using 1 True by (subst orderOuter.simps) simp
  next
    case False
    then show ?thesis by (subst orderOuter.simps) simp
  qed
qed

lemma filter0_orderTransforms:
  "filter (\<lambda>x. priority x = 0) (orderTransforms ts) = filter (\<lambda>x. priority x = 0) ts"
  by (simp add: orderTransforms_def filter0_orderOuter)

lemma sorted_zero_first:
  "sorted (map priority xs) \<Longrightarrow>
   xs = filter (\<lambda>x. priority x = 0) xs @ filter (\<lambda>x. priority x \<noteq> 0) xs"
proof (induction xs)
  case Nil
  then show ?case by simp
next
  case (Cons x xs)
  have s: "sorted (map priority xs)" and le: "\<forall>y \<in> set xs. priority x \<le> priority y"
    using Cons.prems by auto
  show ?case
  proof (cases "priority x = 0")
    case True
    then show ?thesis using Cons.IH [OF s] by simp
  next
    case False
    then have "0 < priority x" using priority_nonneg [of x] by linarith
    then have "\<forall>y \<in> set xs. priority y \<noteq> 0" using le by fastforce
    then have "filter (\<lambda>x. priority x = 0) xs = []" "filter (\<lambda>x. priority x \<noteq> 0) xs = xs"
      by (simp_all add: filter_empty_conv filter_id_conv)
    then show ?thesis using False by simp
  qed
qed

lemma sorted_by_priority_unique:
  assumes "sorted (map priority xs)" "sorted (map priority ys)" "mset xs = mset ys"
    "filter (\<lambda>x. priority x = 0) xs = filter (\<lambda>x. priority x = 0) ys"
  shows "xs = ys"
proof -
  let ?px = "filter (\<lambda>x. priority x \<noteq> 0) xs" and ?py = "filter (\<lambda>x. priority x \<noteq> 0) ys"
  have sx: "sorted (map priority ?px)" and sy: "sorted (map priority ?py)"
    using assms(1,2) by (simp_all add: sorted_filter)
  have "mset ?px = mset ?py"
    by (simp only: mset_filter assms(3))
  then have m: "mset (map priority ?px) = mset (map priority ?py)"
    by (simp only: mset_map)
  have "sort (map priority ?py) = map priority ?px"
    using m sx by (rule properties_for_sort)
  moreover have "sort (map priority ?py) = map priority ?py"
    using sy by (rule sorted_sort_id)
  ultimately have "map priority ?px = map priority ?py"
    by simp
  moreover have "inj_on priority (set ?px \<union> set ?py)"
  proof (rule inj_onI)
    fix a b
    assume a: "a \<in> set ?px \<union> set ?py" and e: "priority a = priority b"
    have "priority a \<noteq> 0" using a by auto
    then show "a = b" using e by (rule priority_inj [rotated])
  qed
  ultimately have p: "?px = ?py"
    by (rule map_inj_on)
  have "xs = filter (\<lambda>x. priority x = 0) xs @ ?px"
    using assms(1) by (rule sorted_zero_first)
  also have "\<dots> = filter (\<lambda>x. priority x = 0) ys @ ?py"
    by (simp only: assms(4) p)
  also have "\<dots> = ys"
    using assms(2) by (rule sorted_zero_first [symmetric])
  finally show ?thesis .
qed

lemma filter_orderTransforms:
  "filter P (orderTransforms ts) = orderTransforms (filter P ts)"
proof (rule sorted_by_priority_unique)
  show "sorted (map priority (filter P (orderTransforms ts)))"
    by (simp add: sorted_filter sorted_orderTransforms)
  show "sorted (map priority (orderTransforms (filter P ts)))"
    by (rule sorted_orderTransforms)
  show "mset (filter P (orderTransforms ts)) = mset (orderTransforms (filter P ts))"
    by (simp add: mset_orderTransforms)
  have "filter (\<lambda>x. priority x = 0) (filter P (orderTransforms ts))
      = filter P (filter (\<lambda>x. priority x = 0) (orderTransforms ts))"
    by (simp add: conj_commute)
  also have "\<dots> = filter (\<lambda>x. priority x = 0) (filter P ts)"
    by (simp add: filter0_orderTransforms conj_commute)
  also have "\<dots> = filter (\<lambda>x. priority x = 0) (orderTransforms (filter P ts))"
    by (simp add: filter0_orderTransforms)
  finally show "filter (\<lambda>x. priority x = 0) (filter P (orderTransforms ts))
      = filter (\<lambda>x. priority x = 0) (orderTransforms (filter P ts))" .
qed


subsection \<open>A field and the same field without the unknown names of its tag\<close>

text \<open>The tokens of the two tags of a field, and two fields that differ in their tags
  at most.\<close>

definition validatorTokens :: "StructField \<Rightarrow> string list" where
  "validatorTokens field = strings_Fields (Tag_Get (Tag field) ''validator'')"

definition transformTokens :: "StructField \<Rightarrow> string list" where
  "transformTokens field = strings_Fields (Tag_Get (Tag field) ''transform'')"

definition sameButTag :: "StructField \<Rightarrow> StructField \<Rightarrow> bool" where
  "sameButTag field field' =
     (Name field' = Name field \<and> PkgPath field' = PkgPath field \<and> Anonymous field' = Anonymous field)"

lemma strings_Fields_Nil [simp]: "strings_Fields [] = []"
  by (simp add: strings_Fields_def isASCII_def)

lemma applyTransformations_tokens:
  "applyTransformations reg fl x field =
     (if CanSet fl then applyOrdered reg (orderTransforms (transformTokens field)) x else (x, None))"
proof -
  have "applyOrdered reg (orderTransforms []) x = (x, None)"
    by (simp add: orderTransforms_def orderOuter.simps)
  then show ?thesis
    by (auto simp: applyTransformations_def transformTokens_def Let_def)
qed

lemma applyTransformations_stripped:
  assumes "transformTokens field' = filter (\<lambda>t. reg t \<noteq> None) (transformTokens field)"
  shows "applyTransformations reg fl x field = applyTransformations reg fl x field'"
proof -
  have "applyOrdered reg (orderTransforms (transformTokens field)) x
      = applyOrdered reg (filter (\<lambda>t. reg t \<noteq> None) (orderTransforms (transformTokens field))) x"
    by (rule applyOrdered_filter)
  also have "\<dots> = applyOrdered reg (orderTransforms (transformTokens field')) x"
    by (simp add: filter_orderTransforms assms)
  finally show ?thesis
    by (simp add: applyTransformations_tokens)
qed

lemma Field_flag_sameButTag: "sameButTag field field' \<Longrightarrow> Field_flag fl field' = Field_flag fl field"
  by (simp add: sameButTag_def Field_flag_def IsExported_def)

lemma applyField_stripped:
  assumes "sameButTag field field'"
    and "transformTokens field' = filter (\<lambda>t. reg t \<noteq> None) (transformTokens field)"
  shows "applyField reg fl field x v = applyField reg fl field' x v"
  using assms(1) applyTransformations_stripped [OF assms(2), of fl x]
  by (simp add: applyField_def sameButTag_def split: prod.splits option.splits)

lemma transformField_stripped:
  assumes "sameButTag field field'"
    and "transformTokens field' = filter (\<lambda>t. reg t \<noteq> None) (transformTokens field)"
  shows "transformField reg fl field x v = transformField reg fl field' x v"
proof -
  have n: "Name field' = Name field"
    using assms(1) by (simp add: sameButTag_def)
  have a: "applyField reg g field y w = applyField reg g field' y w" for g y w
    using assms by (rule applyField_stripped)
  show ?thesis
    by (simp add: transformField.simps Field_flag_sameButTag [OF assms(1)] n a
        cong: val.case_cong option.case_cong prod.case_cong)
qed

lemma validateFields_tokens:
  "validateFields rs ((field, x) # rest) v
     = validateFields rs rest (validateRules rs x field (validatorTokens field) v)"
  by (auto simp: validatorTokens_def Let_def)

lemma validateRules_cong_field:
  assumes "Name field' = Name field"
    and "\<forall>tok \<in> set toks. \<forall>rule. rs (SplitEq0 tok) = Some rule \<longrightarrow> rule x field = rule x field'"
  shows "validateRules rs x field toks v = validateRules rs x field' toks v"
  using assms(2)
proof (induction toks arbitrary: v)
  case Nil
  then show ?case by simp
next
  case (Cons tok toks)
  then show ?case
    using assms(1) by (auto simp: Let_def split: option.splits)
qed

lemma validateFields_stripped:
  assumes "sameButTag field field'"
    and "validatorTokens field' = filter (\<lambda>tok. rs (SplitEq0 tok) \<noteq> None) (validatorTokens field)"
    and "\<forall>tok \<in> set (validatorTokens field). \<forall>rule. rs (SplitEq0 tok) = Some rule \<longrightarrow> rule x field = rule x field'"
  shows "validateFields rs ((field, x) # rest) v = validateFields rs ((field', x) # rest) v"
proof -
  let ?known = "filter (\<lambda>tok. rs (SplitEq0 tok) \<noteq> None) (validatorTokens field)"
  have "validateRules rs x field (validatorTokens field) v = validateRules rs x field ?known v"
    by (rule validateRules_filter)
  also have "\<dots> = validateRules rs x field' ?known v"
    using assms(1,3) by (intro validateRules_cong_field) (auto simp: sameButTag_def)
  finally show ?thesis
    by (simp only: validateFields_tokens assms(2))
qed

lemma validateFields_append:
  "validateFields rs (pre @ fs) v = validateFields rs fs (validateFields rs pre v)"
  by (induction pre arbitrary: v) (auto simp: Let_def)

lemma HasPrefix_SplitEq0:
  assumes "HasPrefix tok (name @ ''='')" "CHR ''='' \<notin> set name"
  shows "SplitEq0 tok = name"
proof -
  have "tok = (name @ ''='') @ drop (length (name @ ''='')) tok"
    using assms(1) unfolding HasPrefix_def by (metis append_take_drop_id)
  then obtain r where "tok = name @ CHR ''='' # r"
    by (metis append.assoc append_Cons append_Nil)
  then show ?thesis
    using assms(2) by (auto simp: SplitEq0_def takeWhile_tail)
qed

lemma tagParam_filter:
  assumes "\<And>tok. HasPrefix tok prefix \<Longrightarrow> P tok"
  shows "tagParam prefix (filter P toks) = tagParam prefix toks"
  using assms by (induction toks) auto

lemma containsRule_stripped:
  assumes "rs ''contains'' \<noteq> None"
    and "validatorTokens field' = filter (\<lambda>tok. rs (SplitEq0 tok) \<noteq> None) (validatorTokens field)"
  shows "containsRule x field = containsRule x field'"
proof -
  have "rs (SplitEq0 tok) \<noteq> None" if "HasPrefix tok ''contains=''" for tok
    using HasPrefix_SplitEq0 [of tok "''contains''"] that assms(1) by simp
  then have "tagParam ''contains='' (validatorTokens field') = tagParam ''contains='' (validatorTokens field)"
    unfolding assms(2) by (rule tagParam_filter)
  then show ?thesis
    by (cases x) (simp_all add: containsRule_def validatorTokens_def Let_def)
qed

lemma startsWithRule_stripped:
  assumes "rs ''starts_with'' \<noteq> None"
    and "validatorTokens field' = filter (\<lambda>tok. rs (SplitEq0 tok) \<noteq> None) (validatorTokens field)"
  shows "startsWithRule x field = startsWithRule x field'"
proof -
  have "rs (SplitEq0 tok) \<noteq> None" if "HasPrefix tok ''starts_with=''" for tok
    using HasPrefix_SplitEq0 [of tok "''starts_with''"] that assms(1) by simp
  then have "tagParam ''starts_with='' (validatorTokens field') = tagParam ''starts_with='' (validatorTokens field)"
    unfolding assms(2) by (rule tagParam_filter)
  then show ?thesis
    by (cases x) (simp_all add: startsWithRule_def validatorTokens_def Let_def)
qed

lemma required_any_field: "required x field = required x field'"
  by (simp add: required_def)


lemma transformFields_stripped:
  assumes "sameButTag field field'"
    and "transformTokens field' = filter (\<lambda>t. reg t \<noteq> None) (transformTokens field)"
  shows "snd (transformFields reg fl (pre @ (field, x) # rest) v)
           = snd (transformFields reg fl (pre @ (field', x) # rest) v)
       \<and> map snd (fst (transformFields reg fl (pre @ (field, x) # rest) v))
           = map snd (fst (transformFields reg fl (pre @ (field', x) # rest) v))"
proof (induction pre arbitrary: v)
  case Nil
  show ?case
    using transformField_stripped [OF assms, of fl x v]
    by (simp add: transformFields_Cons del: transformFields.simps)
next
  case (Cons f pre)
  show ?case
    using Cons.IH [of "snd (transformField reg fl (fst f) (snd f) v)"]
    by (simp add: transformFields_Cons del: transformFields.simps)
qed

lemma transformStruct_stripped:
  assumes "sameButTag field field'"
    and "transformTokens field' = filter (\<lambda>t. reg t \<noteq> None) (transformTokens field)"
  shows "snd (transformStruct reg fl (pre @ (field, x) # rest))
           = snd (transformStruct reg fl (pre @ (field', x) # rest))
       \<and> map snd (fst (transformStruct reg fl (pre @ (field, x) # rest)))
           = map snd (fst (transformStruct reg fl (pre @ (field', x) # rest)))"
  using transformFields_stripped [OF assms, of fl pre x rest "[]"]
  by (simp add: transformStruct_snd fst_transformStruct)

text \<open>
  Claim C7, as the code has it. A token whose name the registry does not hold is passed
  over by the loop of \<^verbatim>\<open>Validate\<close> and by the loop of \<^verbatim>\<open>applyTransformations\<close>:
  both loops call the functions of the registered tokens alone, so the token adds no
  message of its own, and a field all of whose tokens are unknown adds no entry to the
  map of violations and keeps its value. Let \<open>field'\<close> be \<open>field\<close> with the unknown
  names taken out of its tag. A transformer never sees the tag: the turn of the loop of
  \<^verbatim>\<open>transformStruct\<close> for \<open>field\<close> leaves the same value and the same map as for
  \<open>field'\<close>, and \<^verbatim>\<open>Transform\<close> on a record with \<open>field\<close> returns the same error, or nil,
  and leaves the same values as on the record with \<open>field'\<close>. A rule is handed the whole
  tag: \<^verbatim>\<open>Validate\<close> returns the same on both records provided each registered rule named
  in the tag answers the same on \<open>field\<close> and on \<open>field'\<close>; the built-in rules
  \<^verbatim>\<open>required\<close>, \<^verbatim>\<open>contains\<close> and \<^verbatim>\<open>starts_with\<close>, which read their own token at
  most, do.
\<close>

theorem unknown_tokens_are_skipped:
  "validateRules rs x field toks v =
     validateRules rs x field (filter (\<lambda>tok. rs (SplitEq0 tok) \<noteq> None) toks) v
   \<and> applyOrdered reg ts x = applyOrdered reg (filter (\<lambda>t. reg t \<noteq> None) ts) x
   \<and> ((\<forall>tok \<in> set (strings_Fields (Tag_Get (Tag field) ''validator'')). rs (SplitEq0 tok) = None)
        \<longrightarrow> validateFields rs ((field, x) # rest) v = validateFields rs rest v)
   \<and> ((\<forall>t \<in> set (strings_Fields (Tag_Get (Tag field) ''transform'')). reg t = None)
        \<longrightarrow> applyTransformations reg fl x field = (x, None)
          \<and> applyField reg fl field x v = (x, v))
   \<and> (sameButTag field field'
        \<and> transformTokens field' = filter (\<lambda>t. reg t \<noteq> None) (transformTokens field)
        \<longrightarrow> applyTransformations reg fl x field = applyTransformations reg fl x field'
          \<and> transformField reg fl field x w = transformField reg fl field' x w
          \<and> snd (Transform reg (Some (VStruct (pre @ (field, x) # rest))))
              = snd (Transform reg (Some (VStruct (pre @ (field', x) # rest))))
          \<and> snd (Transform reg (Some (VPtr (Some (VStruct (pre @ (field, x) # rest))))))
              = snd (Transform reg (Some (VPtr (Some (VStruct (pre @ (field', x) # rest))))))
          \<and> map snd (fst (transformStruct reg fl (pre @ (field, x) # rest)))
              = map snd (fst (transformStruct reg fl (pre @ (field', x) # rest))))
   \<and> (sameButTag field field'
        \<and> validatorTokens field' = filter (\<lambda>tok. rs (SplitEq0 tok) \<noteq> None) (validatorTokens field)
        \<and> (\<forall>tok \<in> set (validatorTokens field). \<forall>rule.
              rs (SplitEq0 tok) = Some rule \<longrightarrow> rule x field = rule x field')
        \<longrightarrow> validateFields rs ((field, x) # rest) v = validateFields rs ((field', x) # rest) v
          \<and> Validate rs (Some (VStruct (pre @ (field, x) # rest)))
              = Validate rs (Some (VStruct (pre @ (field', x) # rest)))
          \<and> Validate rs (Some (VPtr (Some (VStruct (pre @ (field, x) # rest)))))
              = Validate rs (Some (VPtr (Some (VStruct (pre @ (field', x) # rest))))))
   \<and> (sameButTag field field'
        \<and> validatorTokens field' = filter (\<lambda>tok. rs (SplitEq0 tok) \<noteq> None) (validatorTokens field)
        \<and> rs ''required'' = Some required \<and> rs ''contains'' = Some containsRule
        \<and> rs ''starts_with'' = Some startsWithRule
        \<and> (\<forall>tok \<in> set (validatorTokens field).
              rs (SplitEq0 tok) = None \<or> SplitEq0 tok \<in> {''required'', ''contains'', ''starts_with''})
        \<longrightarrow> Validate rs (Some (VStruct (pre @ (field, x) # rest)))
              = Validate rs (Some (VStruct (pre @ (field', x) # rest)))
          \<and> Validate rs (Some (VPtr (Some (VStruct (pre @ (field, x) # rest)))))
              = Validate rs (Some (VPtr (Some (VStruct (pre @ (field', x) # rest))))))"
proof -
  let ?fs = "pre @ (field, x) # rest" and ?fs' = "pre @ (field', x) # rest"
  have a: "validateFields rs ((field, x) # rest) v = validateFields rs rest v"
    if "\<forall>tok \<in> set (strings_Fields (Tag_Get (Tag field) ''validator'')). rs (SplitEq0 tok) = None"
  proof -
    have "filter (\<lambda>tok. rs (SplitEq0 tok) \<noteq> None) (strings_Fields (Tag_Get (Tag field) ''validator'')) = []"
      using that by (simp add: filter_empty_conv)
    then have "validateRules rs x field (strings_Fields (Tag_Get (Tag field) ''validator'')) v = v"
      using validateRules_filter [of rs x field "strings_Fields (Tag_Get (Tag field) ''validator'')" v]
      by simp
    then show ?thesis by (simp add: Let_def)
  qed
  have b: "applyTransformations reg fl x field = (x, None)"
    if "\<forall>t \<in> set (strings_Fields (Tag_Get (Tag field) ''transform'')). reg t = None"
    using that applyOrdered_unregistered [of "orderTransforms (strings_Fields (Tag_Get (Tag field) ''transform''))" reg x]
    by (simp add: applyTransformations_def Let_def set_orderTransforms)
  have t: "applyTransformations reg fl x field = applyTransformations reg fl x field'
          \<and> transformField reg fl field x w = transformField reg fl field' x w
          \<and> snd (Transform reg (Some (VStruct ?fs))) = snd (Transform reg (Some (VStruct ?fs')))
          \<and> snd (Transform reg (Some (VPtr (Some (VStruct ?fs)))))
              = snd (Transform reg (Some (VPtr (Some (VStruct ?fs')))))
          \<and> map snd (fst (transformStruct reg fl ?fs)) = map snd (fst (transformStruct reg fl ?fs'))"
    if s: "sameButTag field field'"
      and f: "transformTokens field' = filter (\<lambda>t. reg t \<noteq> None) (transformTokens field)"
    using applyTransformations_stripped [OF f, of fl x] transformField_stripped [OF s f, of fl x w]
      transformStruct_stripped [OF s f, of ValueOf_flag pre x rest]
      transformStruct_stripped [OF s f, of "Elem_flag ValueOf_flag" pre x rest]
      transformStruct_stripped [OF s f, of fl pre x rest]
    by (simp add: Transform_struct_snd Transform_ptr_snd)
  have val: "validateFields rs ((field, x) # rest) u = validateFields rs ((field', x) # rest) u
          \<and> Validate rs (Some (VStruct ?fs)) = Validate rs (Some (VStruct ?fs'))
          \<and> Validate rs (Some (VPtr (Some (VStruct ?fs)))) = Validate rs (Some (VPtr (Some (VStruct ?fs'))))"
    if s: "sameButTag field field'"
      and f: "validatorTokens field' = filter (\<lambda>tok. rs (SplitEq0 tok) \<noteq> None) (validatorTokens field)"
      and r: "\<forall>tok \<in> set (validatorTokens field). \<forall>rule.
              rs (SplitEq0 tok) = Some rule \<longrightarrow> rule x field = rule x field'"
    for u
  proof -
    have h: "validateFields rs ((field, x) # rest) u = validateFields rs ((field', x) # rest) u" for u
      using s f r by (rule validateFields_stripped)
    have "validateFields rs ?fs [] = validateFields rs ?fs' []"
      by (simp only: validateFields_append h)
    then show ?thesis
      using h by (simp add: Validate_struct Validate_ptr)
  qed
  have builtin: "\<forall>tok \<in> set (validatorTokens field). \<forall>rule.
              rs (SplitEq0 tok) = Some rule \<longrightarrow> rule x field = rule x field'"
    if f: "validatorTokens field' = filter (\<lambda>tok. rs (SplitEq0 tok) \<noteq> None) (validatorTokens field)"
      and r: "rs ''required'' = Some required" "rs ''contains'' = Some containsRule"
        "rs ''starts_with'' = Some startsWithRule"
      and only: "\<forall>tok \<in> set (validatorTokens field).
              rs (SplitEq0 tok) = None \<or> SplitEq0 tok \<in> {''required'', ''contains'', ''starts_with''}"
  proof (intro ballI allI impI)
    fix tok rule
    assume tok: "tok \<in> set (validatorTokens field)" and rule: "rs (SplitEq0 tok) = Some rule"
    then have "SplitEq0 tok \<in> {''required'', ''contains'', ''starts_with''}"
      using only by auto
    then consider "rule = required" | "rule = containsRule" | "rule = startsWithRule"
      using rule r by auto
    then show "rule x field = rule x field'"
    proof cases
      case 1
      then show ?thesis by (simp add: required_def)
    next
      case 2
      then show ?thesis
        using containsRule_stripped [OF _ f, of x] r(2) by simp
    next
      case 3
      then show ?thesis
        using startsWithRule_stripped [OF _ f, of x] r(3) by simp
    qed
  qed
  show ?thesis
    using a b t val [of v] builtin validateRules_filter [of rs x field toks v] applyOrdered_filter [of reg ts x]
    by (simp add: applyField_def)
qed


text \<open>The claim as stated fails for \<^verbatim>\<open>Validate\<close>: the rule \<^verbatim>\<open>pattern\<close> reads its
  expression through \<^verbatim>\<open>parseParams\<close>, which splits the tag at commas and not at
  spaces. Under the tag \<^verbatim>\<open>pattern=^a$\<close> the value \<^verbatim>\<open>"a"\<close> passes; with the unknown
  token \<^verbatim>\<open>foobar123\<close> written after it the expression is \<^verbatim>\<open>^a$ foobar123\<close>, which no
  string matches, and the call fails.\<close>

theorem unknown_token_changes_pattern_counterexample:
  "\<forall>R. AddRule ''pattern'' (patternRule R) Map.empty ''foobar123'' = None
     \<and> Validate (AddRule ''pattern'' (patternRule R) Map.empty)
         (Some (VPtr (Some (VStruct
            [(\<lparr>Name = ''Code'', PkgPath = [], Tag = [(''validator'', ''pattern=^a$'')], Anonymous = False\<rparr>,
              VString ''a'')]))))
       = (True, None)
     \<and> Validate (AddRule ''pattern'' (patternRule R) Map.empty)
         (Some (VPtr (Some (VStruct
            [(\<lparr>Name = ''Code'', PkgPath = [], Tag = [(''validator'', ''pattern=^a$ foobar123'')], Anonymous = False\<rparr>,
              VString ''a'')]))))
       = (False, Some \<lparr>Msg = ''validation failed'', Fields = [(''Code'', [''invalid format''])]\<rparr>)"
proof
  fix R
  let ?rs = "AddRule ''pattern'' (patternRule R) Map.empty"
  let ?f1 = "\<lparr>Name = ''Code'', PkgPath = [], Tag = [(''validator'', ''pattern=^a$'')], Anonymous = False\<rparr>"
  let ?f2 = "\<lparr>Name = ''Code'', PkgPath = [], Tag = [(''validator'', ''pattern=^a$ foobar123'')], Anonymous = False\<rparr>"
  have p1: "parseParams ''pattern=^a$'' ''pattern'' = Some ''^a$''"
    by (simp add: parseParams_def strings_Split_def)
  have p2: "parseParams ''pattern=^a$ foobar123'' ''pattern'' = Some ''^a$ foobar123''"
    by (simp add: parseParams_def strings_Split_def)
  have c1: "parseSimple ''^a$'' = Some [OpBeginText, OpLiteral CHR ''a'', OpEndText]"
    by (simp add: literalChar_def byte_def)
  have c2: "parseSimple ''^a$ foobar123''
      = Some [OpBeginText, OpLiteral CHR ''a'', OpEndText, OpLiteral CHR '' '', OpLiteral CHR ''f'',
              OpLiteral CHR ''o'', OpLiteral CHR ''o'', OpLiteral CHR ''b'', OpLiteral CHR ''a'',
              OpLiteral CHR ''r'', OpLiteral CHR ''1'', OpLiteral CHR ''2'', OpLiteral CHR ''3'']"
    by (simp add: literalChar_def byte_def)
  have r1: "patternRule R (VString ''a'') ?f1 = []"
    by (simp add: patternRule_def Tag_Get_def p1 regexp_Compile_def c1 del: parseSimple.simps)
  have r2: "patternRule R (VString ''a'') ?f2 = [''invalid format'']"
    by (simp add: patternRule_def Tag_Get_def p2 regexp_Compile_def c2 del: parseSimple.simps)
  have t1: "strings_Fields ''pattern=^a$'' = [''pattern=^a$'']"
    by (simp add: fields_eval)
  have t2: "strings_Fields ''pattern=^a$ foobar123'' = [''pattern=^a$'', ''foobar123'']"
    by (simp add: fields_eval)
  show "?rs ''foobar123'' = None
     \<and> Validate ?rs (Some (VPtr (Some (VStruct [(?f1, VString ''a'')])))) = (True, None)
     \<and> Validate ?rs (Some (VPtr (Some (VStruct [(?f2, VString ''a'')]))))
       = (False, Some \<lparr>Msg = ''validation failed'', Fields = [(''Code'', [''invalid format''])]\<rparr>)"
    using r1 r2
    by (simp add: Validate_def Tag_Get_def t1 t2 AddRule_def SplitEq0_def lookup_def NewErr_def Let_def)
qed

text \<open>The tag \<^verbatim>\<open>required foobar123 contains=ab\<close> on an empty string and on
  \<^verbatim>\<open>"xaby"\<close>: \<^verbatim>\<open>Validate\<close> answers what it answers under
  \<^verbatim>\<open>required contains=ab\<close>. The transform tag \<^verbatim>\<open>lowercase foobar123 trim\<close> does what
  \<^verbatim>\<open>lowercase trim\<close> does, and the transform tag \<^verbatim>\<open>foobar123\<close> nothing.\<close>

theorem unknown_tokens_are_skipped_witness:
  "Validate (addCustomStringRules (addRequiredRule Map.empty))
     (Some (VStruct
        [(\<lparr>Name = ''Code'', PkgPath = [], Tag = [(''validator'', ''required foobar123 contains=ab'')], Anonymous = False\<rparr>,
          VString [])]))
     = (False, Some \<lparr>Msg = ''validation failed'',
                      Fields = [(''Code'', [''field is required'', ''must contain '' @ [CHR 0x27] @ ''ab'' @ [CHR 0x27]])]\<rparr>)
   \<and> Validate (addCustomStringRules (addRequiredRule Map.empty))
     (Some (VStruct
        [(\<lparr>Name = ''Code'', PkgPath = [], Tag = [(''validator'', ''required foobar123 contains=ab'')], Anonymous = False\<rparr>,
          VString ''xaby'')]))
     = (True, None)
   \<and> (\<forall>U. applyTransformations (builtin_transformers U)
         \<lparr>flagAddr = True, flagStickyRO = False, flagEmbedRO = False\<rparr> (VString ''  ABC '')
         \<lparr>Name = ''Code'', PkgPath = [], Tag = [(''transform'', ''lowercase foobar123 trim'')], Anonymous = False\<rparr>
       = (VString ''abc'', None))
   \<and> (\<forall>U. applyTransformations (builtin_transformers U)
         \<lparr>flagAddr = True, flagStickyRO = False, flagEmbedRO = False\<rparr> (VString ''  a '')
         \<lparr>Name = ''Code'', PkgPath = [], Tag = [(''transform'', ''foobar123'')], Anonymous = False\<rparr>
       = (VString ''  a '', None))"
proof -
  let ?rs = "addCustomStringRules (addRequiredRule Map.empty)"
  let ?fl = "\<lparr>flagAddr = True, flagStickyRO = False, flagEmbedRO = False\<rparr>"
  let ?v = "\<lparr>Name = ''Code'', PkgPath = [], Tag = [(''validator'', ''required foobar123 contains=ab'')], Anonymous = False\<rparr>"
  let ?v' = "\<lparr>Name = ''Code'', PkgPath = [], Tag = [(''validator'', ''required contains=ab'')], Anonymous = False\<rparr>"
  let ?t = "\<lparr>Name = ''Code'', PkgPath = [], Tag = [(''transform'', ''lowercase foobar123 trim'')], Anonymous = False\<rparr>"
  let ?t' = "\<lparr>Name = ''Code'', PkgPath = [], Tag = [(''transform'', ''lowercase trim'')], Anonymous = False\<rparr>"
  let ?u = "\<lparr>Name = ''Code'', PkgPath = [], Tag = [(''transform'', ''foobar123'')], Anonymous = False\<rparr>"
  have toks: "validatorTokens ?v = [''required'', ''foobar123'', ''contains=ab'']"
    "validatorTokens ?v' = [''required'', ''contains=ab'']"
    by (simp_all add: validatorTokens_def Tag_Get_def fields_eval)
  have reg: "?rs ''required'' = Some required" "?rs ''contains'' = Some containsRule"
    "?rs ''starts_with'' = Some startsWithRule" "?rs ''foobar123'' = None"
    by (simp_all add: addCustomStringRules_def addRequiredRule_def AddRule_def)
  have names: "SplitEq0 ''required'' = ''required''" "SplitEq0 ''foobar123'' = ''foobar123''"
    "SplitEq0 ''contains=ab'' = ''contains''"
    by (simp_all add: SplitEq0_def)
  have hyp: "sameButTag ?v ?v'
        \<and> validatorTokens ?v' = filter (\<lambda>tok. ?rs (SplitEq0 tok) \<noteq> None) (validatorTokens ?v)
        \<and> ?rs ''required'' = Some required \<and> ?rs ''contains'' = Some containsRule
        \<and> ?rs ''starts_with'' = Some startsWithRule
        \<and> (\<forall>tok \<in> set (validatorTokens ?v).
              ?rs (SplitEq0 tok) = None \<or> SplitEq0 tok \<in> {''required'', ''contains'', ''starts_with''})"
    by (simp add: toks names reg sameButTag_def)
  have same: "Validate ?rs (Some (VStruct [(?v, y)])) = Validate ?rs (Some (VStruct [(?v', y)]))" for y
    using unknown_tokens_are_skipped [where rs = ?rs and field = ?v and field' = ?v' and x = y
        and pre = "[]" and rest = "[]"] hyp
    by simp
  have c: "containsRule (VString []) ?v' = [''must contain '' @ [CHR 0x27] @ ''ab'' @ [CHR 0x27]]"
    "containsRule (VString ''xaby'') ?v' = []"
    by (simp_all add: containsRule_def Tag_Get_def fields_eval HasPrefix_def TrimPrefix_def)
  have r: "required (VString []) ?v' = [''field is required'']" "required (VString ''xaby'') ?v' = []"
    by (simp_all add: required_def)
  have f: "strings_Fields ''required contains=ab'' = [''required'', ''contains=ab'']"
    by (simp add: fields_eval)
  have e1: "Validate ?rs (Some (VStruct [(?v', VString [])]))
     = (False, Some \<lparr>Msg = ''validation failed'',
                      Fields = [(''Code'', [''field is required'', ''must contain '' @ [CHR 0x27] @ ''ab'' @ [CHR 0x27]])]\<rparr>)"
    using c r by (simp add: Validate_def Tag_Get_def f reg names lookup_def NewErr_def Let_def)
  have e2: "Validate ?rs (Some (VStruct [(?v', VString ''xaby'')])) = (True, None)"
    using c r by (simp add: Validate_def Tag_Get_def f reg names lookup_def NewErr_def Let_def)
  have tr: "applyTransformations (builtin_transformers U) ?fl (VString ''  ABC '') ?t = (VString ''abc'', None)" for U
  proof -
    have "sameButTag ?t ?t'
        \<and> transformTokens ?t' = filter (\<lambda>t. builtin_transformers U t \<noteq> None) (transformTokens ?t)"
      by (simp add: sameButTag_def transformTokens_def Tag_Get_def fields_eval
          builtin_transformers_def addStringTransformers_def AddTransformer_def)
    then have "applyTransformations (builtin_transformers U) ?fl (VString ''  ABC '') ?t
        = applyTransformations (builtin_transformers U) ?fl (VString ''  ABC '') ?t'"
      using unknown_tokens_are_skipped [where reg = "builtin_transformers U" and field = ?t and field' = ?t'
          and x = "VString ''  ABC ''" and fl = ?fl]
      by blast
    also have "\<dots> = (VString ''abc'', None)"
      by (simp add: transform_eval string_eval)
    finally show ?thesis .
  qed
  have un: "applyTransformations (builtin_transformers U) ?fl (VString ''  a '') ?u = (VString ''  a '', None)" for U
  proof -
    have "\<forall>t \<in> set (strings_Fields (Tag_Get (Tag ?u) ''transform'')). builtin_transformers U t = None"
      by (simp add: Tag_Get_def fields_eval builtin_transformers_def addStringTransformers_def AddTransformer_def)
    then show ?thesis
      using unknown_tokens_are_skipped [where reg = "builtin_transformers U" and field = ?u and x = "VString ''  a ''" and fl = ?fl]
      by blast
  qed
  show ?thesis
    using same [of "VString []"] same [of "VString ''xaby''"] e1 e2 tr un by simp
qed


section \<open>The built-in pipelines on ASCII strings\<close>

subsection \<open>The library functions on ASCII strings\<close>

lemma byte_char_of: "n < 256 \<Longrightarrow> byte (char_of n) = n"
  by (simp add: byte_def)

lemma char_of_byte: "char_of (byte c) = c"
  by (simp add: byte_def)

lemma byte_less_256: "byte c < 256"
  using of_char_mod_256 [of c, where ?'a = nat]
  by (metis byte_def mod_less_divisor zero_less_numeral)

lemma byte_lowerByte:
  "byte (lowerByte c) = (if 65 \<le> byte c \<and> byte c \<le> 90 then byte c + 32 else byte c)"
  by (simp add: lowerByte_def byte_char_of)

lemma byte_upperByte:
  "byte (upperByte c) = (if 97 \<le> byte c \<and> byte c \<le> 122 then byte c - 32 else byte c)"
  using byte_less_256 [of c] by (auto simp: upperByte_def byte_char_of)

lemma byte_eq_iff: "byte c = byte d \<longleftrightarrow> c = d"
  by (metis char_of_byte)

lemma lowerByte_idem [simp]: "lowerByte (lowerByte c) = lowerByte c"
  by (auto simp add: byte_eq_iff [symmetric] byte_lowerByte)

lemma upperByte_idem [simp]: "upperByte (upperByte c) = upperByte c"
  by (auto simp add: byte_eq_iff [symmetric] byte_upperByte)

lemma upperByte_lowerByte [simp]: "upperByte (lowerByte c) = upperByte c"
  by (auto simp add: byte_eq_iff [symmetric] byte_lowerByte byte_upperByte)

lemma lowerByte_upperByte [simp]: "lowerByte (upperByte c) = lowerByte c"
  by (auto simp add: byte_eq_iff [symmetric] byte_lowerByte byte_upperByte)

lemma asciiSpace_lowerByte [simp]: "asciiSpace (lowerByte c) = asciiSpace c"
  by (auto simp: asciiSpace_def byte_lowerByte)

lemma asciiSpace_upperByte [simp]: "asciiSpace (upperByte c) = asciiSpace c"
  by (auto simp: asciiSpace_def byte_upperByte)

lemma isASCII_map_lowerByte [simp]: "isASCII (map lowerByte s) = isASCII s"
  by (induction s) (auto simp: isASCII_def byte_lowerByte RuneSelf_def)

lemma isASCII_map_upperByte [simp]: "isASCII (map upperByte s) = isASCII s"
  by (induction s) (auto simp: isASCII_def byte_upperByte RuneSelf_def)








text \<open>A trimmed string: empty, or with no ASCII space at either end.\<close>

definition trimmed :: "string \<Rightarrow> bool" where
  "trimmed s = (s = [] \<or> (\<not> asciiSpace (hd s) \<and> \<not> asciiSpace (last s)))"



lemma trimmed_map:
  "(\<And>c. asciiSpace (f c) = asciiSpace c) \<Longrightarrow> trimmed (map f s) = trimmed s"
  by (cases "s = []") (auto simp: trimmed_def hd_map last_map)









subsection \<open>The pipeline of the built-in transformers on a string\<close>






lemma priority_values [simp]:
  "priority ''trim'' = 1" "priority ''remove_whitespace'' = 2"
  "priority ''lowercase'' = 3" "priority ''uppercase'' = 4"
  by (simp_all add: priority_def priorityLookup_def)













section \<open>The keys of the error are the paths of the failing fields\<close>

lemma failure_path_mono:
  assumes "failure_path reg fl fs p" "set fs \<subseteq> set fs'"
  shows "failure_path reg fl fs' p"
  using assms(1)
proof (cases rule: failure_path.cases)
  case (own field x y msg)
  then have "(field, x) \<in> set fs'" using assms(2) by auto
  then show ?thesis
    unfolding own(1) using own(3,4) by (rule failure_path.own)
next
  case (in_struct field gs q)
  then have "(field, VStruct gs) \<in> set fs'" using assms(2) by auto
  then show ?thesis
    unfolding in_struct(1) using in_struct(3) by (rule failure_path.in_struct)
next
  case (in_pointer field gs q)
  then have "(field, VPtr (Some (VStruct gs))) \<in> set fs'" using assms(2) by auto
  then show ?thesis
    unfolding in_pointer(1) using in_pointer(3) by (rule failure_path.in_pointer)
next
  case (in_slice field es j gs q)
  then have "(field, VSlice es) \<in> set fs'" using assms(2) by auto
  then show ?thesis
    unfolding in_slice(1) using in_slice(3,4,5) by (rule failure_path.in_slice)
qed

lemma Fields_transformStruct:
  "snd (transformStruct reg fl fs) = Some e \<Longrightarrow> Fields e = snd (transformFields reg fl fs [])"
  by (auto simp: transformStruct_snd split: if_splits)

text \<open>Every key that the loop over the elements adds is the path of a failure inside
  an element, under the prefix of that element.\<close>

lemma keys_transformElems_only:
  assumes nested: "\<And>gs q. VStruct gs \<in> set es \<Longrightarrow>
      q \<in> fst ` set (snd (transformFields reg fl gs [])) \<Longrightarrow> failure_path reg fl gs q"
    and p: "p \<in> fst ` set (snd (transformElems reg fl name j es v))"
  shows "p \<in> fst ` set v \<or>
     (\<exists>i gs q. i < length es \<and> es ! i = VStruct gs \<and> failure_path reg fl gs q
        \<and> p = name @ ''['' @ decimal (j + i) @ ''].'' @ q)"
  using assms
proof (induction es arbitrary: j v)
  case Nil
  then show ?case by simp
next
  case (Cons elem es)
  let ?v = "elemViolations reg fl name j elem v"
  have "p \<in> fst ` set (snd (transformElems reg fl name (j + 1) es ?v))"
    using Cons.prems(2) by (simp only: snd_transformElems_Cons)
  then have "p \<in> fst ` set ?v \<or>
     (\<exists>i gs q. i < length es \<and> es ! i = VStruct gs \<and> failure_path reg fl gs q
        \<and> p = name @ ''['' @ decimal (j + 1 + i) @ ''].'' @ q)"
    using Cons.IH [of "j + 1" ?v] Cons.prems(1) by auto
  then show ?case
  proof
    assume pv: "p \<in> fst ` set ?v"
    show ?thesis
    proof (cases "p \<in> fst ` set v")
      case True
      then show ?thesis by simp
    next
      case False
      then obtain gs e where g: "elem = VStruct gs" "snd (transformStruct reg fl gs) = Some e"
        "p \<in> (\<lambda>k. (name @ ''['' @ decimal j @ ''].'') @ k) ` fst ` set (Fields e)"
        using pv
        by (auto simp: elemViolations_def keys_mergeFields split: val.splits option.splits)
      then obtain q where q: "q \<in> fst ` set (Fields e)" "p = name @ ''['' @ decimal j @ ''].'' @ q"
        by auto
      have "failure_path reg fl gs q"
        using Cons.prems(1) [of gs q] g(1) q(1) Fields_transformStruct [OF g(2)] by simp
      then have "0 < length (elem # es) \<and> (elem # es) ! 0 = VStruct gs \<and> failure_path reg fl gs q
        \<and> p = name @ ''['' @ decimal (j + 0) @ ''].'' @ q"
        using g(1) q(2) by simp
      then show ?thesis by blast
    qed
  next
    assume "\<exists>i gs q. i < length es \<and> es ! i = VStruct gs \<and> failure_path reg fl gs q
        \<and> p = name @ ''['' @ decimal (j + 1 + i) @ ''].'' @ q"
    then obtain i gs q where "i < length es" "es ! i = VStruct gs" "failure_path reg fl gs q"
      "p = name @ ''['' @ decimal (j + 1 + i) @ ''].'' @ q" by blast
    then have "Suc i < length (elem # es) \<and> (elem # es) ! Suc i = VStruct gs \<and> failure_path reg fl gs q
        \<and> p = name @ ''['' @ decimal (j + Suc i) @ ''].'' @ q"
      by simp
    then show ?thesis by blast
  qed
qed

text \<open>Every key that a turn of the loop adds is the path of a failure.\<close>

lemma keys_transformField_only:
  assumes mem: "(field, x) \<in> set fs"
    and struct: "\<And>gs q. x = VStruct gs \<Longrightarrow>
      q \<in> fst ` set (snd (transformFields reg (Field_flag fl field) gs [])) \<Longrightarrow>
      failure_path reg (Field_flag fl field) gs q"
    and ptr: "\<And>gs q. x = VPtr (Some (VStruct gs)) \<Longrightarrow>
      q \<in> fst ` set (snd (transformFields reg (Elem_flag (Field_flag fl field)) gs [])) \<Longrightarrow>
      failure_path reg (Elem_flag (Field_flag fl field)) gs q"
    and slice: "\<And>es gs q. x = VSlice es \<Longrightarrow> VStruct gs \<in> set es \<Longrightarrow>
      q \<in> fst ` set (snd (transformFields reg (Index_flag (Field_flag fl field)) gs [])) \<Longrightarrow>
      failure_path reg (Index_flag (Field_flag fl field)) gs q"
    and p: "p \<in> fst ` set (snd (transformField reg fl field x v))"
  shows "p \<in> fst ` set v \<or> failure_path reg fl fs p"
proof (cases "recursionFailed reg fl field x")
  case True
  then consider (s) gs e where "x = VStruct gs" "snd (transformStruct reg (Field_flag fl field) gs) = Some e"
    | (p) gs e where "x = VPtr (Some (VStruct gs))"
        "snd (transformStruct reg (Elem_flag (Field_flag fl field)) gs) = Some e"
    by (auto simp: recursionFailed_def split: val.splits option.splits)
  then show ?thesis
  proof cases
    case s
    then have "p \<in> (\<lambda>k. (Name field @ ''.'') @ k) ` fst ` set (Fields e) \<union> fst ` set v"
      using p by (simp add: transformField_unfold keys_mergeFields)
    then show ?thesis
    proof
      assume "p \<in> (\<lambda>k. (Name field @ ''.'') @ k) ` fst ` set (Fields e)"
      then obtain q where q: "q \<in> fst ` set (Fields e)" "p = Name field @ ''.'' @ q"
        by auto
      have "failure_path reg (Field_flag fl field) gs q"
        using struct [OF s(1), of q] q(1) Fields_transformStruct [OF s(2)] by simp
      moreover have "(field, VStruct gs) \<in> set fs"
        using mem s(1) by simp
      ultimately have "failure_path reg fl fs (Name field @ ''.'' @ q)"
        by (rule failure_path.in_struct [rotated])
      then show ?thesis using q(2) by simp
    qed simp
  next
    case p
    then have "p \<in> (\<lambda>k. (Name field @ ''.'') @ k) ` fst ` set (Fields e) \<union> fst ` set v"
      using assms(5) by (simp add: transformField_unfold keys_mergeFields)
    then show ?thesis
    proof
      assume "p \<in> (\<lambda>k. (Name field @ ''.'') @ k) ` fst ` set (Fields e)"
      then obtain q where q: "q \<in> fst ` set (Fields e)" "p = Name field @ ''.'' @ q"
        by auto
      have "failure_path reg (Elem_flag (Field_flag fl field)) gs q"
        using ptr [OF p(1), of q] q(1) Fields_transformStruct [OF p(2)] by simp
      moreover have "(field, VPtr (Some (VStruct gs))) \<in> set fs"
        using mem p(1) by simp
      ultimately have "failure_path reg fl fs (Name field @ ''.'' @ q)"
        by (rule failure_path.in_pointer [rotated])
      then show ?thesis using q(2) by simp
    qed simp
  qed
next
  case False
  then have inp: "ownInput reg fl field x = Some (recursed reg fl field x)"
    by (simp add: ownInput_recursed)
  have own: "failure_path reg fl fs (Name field)"
    if ne: "snd (applyTransformations reg (Field_flag fl field) (recursed reg fl field x) field) \<noteq> None"
  proof -
    obtain msg where "snd (applyTransformations reg (Field_flag fl field) (recursed reg fl field x) field) = Some msg"
      using ne by auto
    with mem inp show ?thesis by (rule failure_path.own)
  qed
  show ?thesis
  proof (cases "\<exists>es. x = VSlice es")
    case True
    then obtain es where es: "x = VSlice es" by blast
    let ?w = "snd (transformElems reg (Index_flag (Field_flag fl field)) (Name field) 0 es v)"
    have "p \<in> fst ` set ?w \<or> (p = Name field \<and>
        snd (applyTransformations reg (Field_flag fl field) (recursed reg fl field x) field) \<noteq> None)"
      using p es by (auto simp: transformField_unfold keys_applyField recursed_def split: if_splits)
    then show ?thesis
    proof
      assume "p \<in> fst ` set ?w"
      then have "p \<in> fst ` set v \<or>
        (\<exists>i gs q. i < length es \<and> es ! i = VStruct gs
            \<and> failure_path reg (Index_flag (Field_flag fl field)) gs q
            \<and> p = Name field @ ''['' @ decimal (0 + i) @ ''].'' @ q)"
        using keys_transformElems_only [of es reg "Index_flag (Field_flag fl field)" p "Name field" 0 v]
          slice [OF es] by blast
      then show ?thesis
      proof
        assume "\<exists>i gs q. i < length es \<and> es ! i = VStruct gs
            \<and> failure_path reg (Index_flag (Field_flag fl field)) gs q
            \<and> p = Name field @ ''['' @ decimal (0 + i) @ ''].'' @ q"
        then obtain i gs q where i: "i < length es" "es ! i = VStruct gs"
          "failure_path reg (Index_flag (Field_flag fl field)) gs q"
          "p = Name field @ ''['' @ decimal i @ ''].'' @ q" by auto
        have "(field, VSlice es) \<in> set fs" using mem es by simp
        then have "failure_path reg fl fs (Name field @ ''['' @ decimal i @ ''].'' @ q)"
          using i(1,2,3) by (rule failure_path.in_slice)
        then show ?thesis using i(4) by simp
      qed simp
    next
      assume "p = Name field \<and>
        snd (applyTransformations reg (Field_flag fl field) (recursed reg fl field x) field) \<noteq> None"
      then show ?thesis using own by simp
    qed
  next
    case notslice: False
    have "p \<in> fst ` set v \<or> (p = Name field \<and>
        snd (applyTransformations reg (Field_flag fl field) (recursed reg fl field x) field) \<noteq> None)"
      using p False notslice
      by (auto simp: transformField_unfold keys_applyField recursed_def recursionFailed_def
          split: val.splits option.splits if_splits)
    then show ?thesis using own by auto
  qed
qed

lemma keys_transformFields_only:
  assumes turn: "\<And>field x q w. (field, x) \<in> set rest \<Longrightarrow>
      q \<in> fst ` set (snd (transformField reg fl field x w)) \<Longrightarrow>
      q \<in> fst ` set w \<or> failure_path reg fl fs q"
    and p: "p \<in> fst ` set (snd (transformFields reg fl rest v))"
  shows "p \<in> fst ` set v \<or> failure_path reg fl fs p"
  using assms
proof (induction rest arbitrary: v)
  case Nil
  then show ?case by simp
next
  case (Cons f rest)
  let ?w = "snd (transformField reg fl (fst f) (snd f) v)"
  have "p \<in> fst ` set (snd (transformFields reg fl rest ?w))"
    using Cons.prems(2) by (simp only: snd_transformFields_Cons)
  moreover have t: "q \<in> fst ` set w \<or> failure_path reg fl fs q"
    if "(field, x) \<in> set rest" "q \<in> fst ` set (snd (transformField reg fl field x w))"
    for field x q w
    using Cons.prems(1) [of field x q w] that by simp
  ultimately have "p \<in> fst ` set ?w \<or> failure_path reg fl fs p"
    by (rule Cons.IH [rotated])
  then show ?case
  proof
    assume "p \<in> fst ` set ?w"
    moreover have "(fst f, snd f) \<in> set (f # rest)" by simp
    ultimately show ?thesis
      using Cons.prems(1) [of "fst f" "snd f" p v] by blast
  qed simp
qed


lemma size_member:
  "x \<in> set xs \<Longrightarrow> f x < size_list f xs"
  by (induction xs) auto

lemma key_is_failure_path:
  "p \<in> fst ` set (snd (transformFields reg fl fs [])) \<Longrightarrow> failure_path reg fl fs p"
proof (induction "size_list (\<lambda>p. size (snd p)) fs" arbitrary: fs fl p rule: less_induct)
  case less
  have turn: "q \<in> fst ` set w \<or> failure_path reg fl fs q"
    if mem: "(field, x) \<in> set fs" and q: "q \<in> fst ` set (snd (transformField reg fl field x w))"
    for field x q w
  proof -
    have small: "size x < size_list (\<lambda>p. size (snd p)) fs"
      using size_member [OF mem, of "\<lambda>p. size (snd p)"] by simp
    show ?thesis
    proof (rule keys_transformField_only [OF mem _ _ _ q])
      fix gs r
      assume x: "x = VStruct gs"
        and r: "r \<in> fst ` set (snd (transformFields reg (Field_flag fl field) gs []))"
      have "size_list (\<lambda>p. size (snd p)) gs < size_list (\<lambda>p. size (snd p)) fs"
        using small x size_fields_le [of gs] by simp
      then show "failure_path reg (Field_flag fl field) gs r"
        using r by (rule less.hyps)
    next
      fix gs r
      assume x: "x = VPtr (Some (VStruct gs))"
        and r: "r \<in> fst ` set (snd (transformFields reg (Elem_flag (Field_flag fl field)) gs []))"
      have "size_list (\<lambda>p. size (snd p)) gs < size_list (\<lambda>p. size (snd p)) fs"
        using small x size_fields_le [of gs] by simp
      then show "failure_path reg (Elem_flag (Field_flag fl field)) gs r"
        using r by (rule less.hyps)
    next
      fix es gs r
      assume x: "x = VSlice es" and e: "VStruct gs \<in> set es"
        and r: "r \<in> fst ` set (snd (transformFields reg (Index_flag (Field_flag fl field)) gs []))"
      have "size (VStruct gs) < size_list size es"
        using size_member [OF e, of size] by simp
      then have "size_list (\<lambda>p. size (snd p)) gs < size_list (\<lambda>p. size (snd p)) fs"
        using small x size_fields_le [of gs] by simp
      then show "failure_path reg (Index_flag (Field_flag fl field)) gs r"
        using r by (rule less.hyps)
    qed
  qed
  have "p \<in> fst ` set ([] :: violations) \<or> failure_path reg fl fs p"
  proof (rule keys_transformFields_only [where rest = fs])
    show "q \<in> fst ` set w \<or> failure_path reg fl fs q"
      if "(field, x) \<in> set fs" "q \<in> fst ` set (snd (transformField reg fl field x w))"
      for field x q w
      using that by (rule turn)
    show "p \<in> fst ` set (snd (transformFields reg fl fs []))"
      by (rule less.prems)
  qed
  then show ?case by simp
qed

text \<open>
  Claim C3. A failure inside a nested aggregate is keyed by its full path: the name of
  the failing field, prefixed at every level of the recursion with the name of the
  field recursed into, \<^verbatim>\<open>Outer.Inner\<close> through a struct or pointer field and
  \<^verbatim>\<open>Items[j].Name\<close> through the element \<open>j\<close> of a slice field. The keys of the error
  that \<^verbatim>\<open>transformStruct\<close> returns are exactly the paths of the failing fields: every
  such path is a key, and the error has no other key.
\<close>

theorem failure_path_is_key:
  "failure_path reg fl fs p \<longleftrightarrow>
     (\<exists>e. snd (transformStruct reg fl fs) = Some e \<and> p \<in> fst ` set (Fields e))"
proof
  assume "failure_path reg fl fs p"
  then show "\<exists>e. snd (transformStruct reg fl fs) = Some e \<and> p \<in> fst ` set (Fields e)"
    by (rule failure_path_key)
next
  assume "\<exists>e. snd (transformStruct reg fl fs) = Some e \<and> p \<in> fst ` set (Fields e)"
  then obtain e where e: "snd (transformStruct reg fl fs) = Some e" "p \<in> fst ` set (Fields e)"
    by blast
  then have "p \<in> fst ` set (snd (transformFields reg fl fs []))"
    using Fields_transformStruct [OF e(1)] by simp
  then show "failure_path reg fl fs p"
    by (rule key_is_failure_path)
qed

text \<open>A failure three levels deep, in the second element of the slice \<^verbatim>\<open>Items\<close> of the
  struct field \<^verbatim>\<open>Mid\<close>, and a failure behind the pointer field \<^verbatim>\<open>Ref\<close>.\<close>

theorem failure_path_is_key_witness:
  "failure_path (AddTransformer ''fail'' (\<lambda>v. (v, Some ''boom'')) Map.empty) (Elem_flag ValueOf_flag)
     [(\<lparr>Name = ''Mid'', PkgPath = [], Tag = [], Anonymous = False\<rparr>,
       VStruct
         [(\<lparr>Name = ''Items'', PkgPath = [], Tag = [], Anonymous = False\<rparr>,
           VSlice
             [VStruct [(\<lparr>Name = ''Name'', PkgPath = [], Tag = [], Anonymous = False\<rparr>, VString ''a'')],
              VStruct [(\<lparr>Name = ''Name'', PkgPath = [], Tag = [(''transform'', ''fail'')], Anonymous = False\<rparr>,
                        VString ''b'')]])]),
      (\<lparr>Name = ''Ref'', PkgPath = [], Tag = [], Anonymous = False\<rparr>,
       VPtr (Some (VStruct
         [(\<lparr>Name = ''Name'', PkgPath = [], Tag = [(''transform'', ''fail'')], Anonymous = False\<rparr>,
           VString ''c'')])))]
     ''Mid.Items[1].Name''
   \<and> snd (Transform (AddTransformer ''fail'' (\<lambda>v. (v, Some ''boom'')) Map.empty)
     (Some (VPtr (Some (VStruct
     [(\<lparr>Name = ''Mid'', PkgPath = [], Tag = [], Anonymous = False\<rparr>,
       VStruct
         [(\<lparr>Name = ''Items'', PkgPath = [], Tag = [], Anonymous = False\<rparr>,
           VSlice
             [VStruct [(\<lparr>Name = ''Name'', PkgPath = [], Tag = [], Anonymous = False\<rparr>, VString ''a'')],
              VStruct [(\<lparr>Name = ''Name'', PkgPath = [], Tag = [(''transform'', ''fail'')], Anonymous = False\<rparr>,
                        VString ''b'')]])]),
      (\<lparr>Name = ''Ref'', PkgPath = [], Tag = [], Anonymous = False\<rparr>,
       VPtr (Some (VStruct
         [(\<lparr>Name = ''Name'', PkgPath = [], Tag = [(''transform'', ''fail'')], Anonymous = False\<rparr>,
           VString ''c'')])))])))))
     = Some \<lparr>Msg = ''transformation failed'',
              Fields = [(''Mid.Items[1].Name'', [''boom'']), (''Ref.Name'', [''boom''])]\<rparr>"
proof -
  let ?reg = "AddTransformer ''fail'' (\<lambda>v. (v, Some ''boom'')) Map.empty"
  let ?fl = "Elem_flag ValueOf_flag"
  let ?plain = "\<lparr>Name = ''Name'', PkgPath = [], Tag = [], Anonymous = False\<rparr>"
  let ?name = "\<lparr>Name = ''Name'', PkgPath = [], Tag = [(''transform'', ''fail'')], Anonymous = False\<rparr>"
  let ?items = "\<lparr>Name = ''Items'', PkgPath = [], Tag = [], Anonymous = False\<rparr>"
  let ?mid = "\<lparr>Name = ''Mid'', PkgPath = [], Tag = [], Anonymous = False\<rparr>"
  let ?ref = "\<lparr>Name = ''Ref'', PkgPath = [], Tag = [], Anonymous = False\<rparr>"
  let ?elems = "[VStruct [(?plain, VString ''a'')], VStruct [(?name, VString ''b'')]]"
  let ?top = "[(?mid, VStruct [(?items, VSlice ?elems)]),
               (?ref, VPtr (Some (VStruct [(?name, VString ''c'')])))]"
  have one: "decimal 1 = ''1''"
    by (simp add: decimal.simps char_of_def bit_0)
  have l3: "failure_path ?reg (Index_flag (Field_flag (Field_flag ?fl ?mid) ?items))
      [(?name, VString ''b'')] ''Name''"
    using failure_path.own [of ?name "VString ''b''" "[(?name, VString ''b'')]" ?reg
        "Index_flag (Field_flag (Field_flag ?fl ?mid) ?items)" "VString ''b''" "''boom''"]
    by (simp add: ownInput_def struct_eval transform_eval fields_eval)
  have l2: "failure_path ?reg (Field_flag ?fl ?mid) [(?items, VSlice ?elems)] ''Items[1].Name''"
    using failure_path.in_slice [of ?items ?elems "[(?items, VSlice ?elems)]" 1 "[(?name, VString ''b'')]"
        ?reg "Field_flag ?fl ?mid" "''Name''"] l3 one
    by simp
  have l1: "failure_path ?reg ?fl ?top ''Mid.Items[1].Name''"
    using failure_path.in_struct [of ?mid "[(?items, VSlice ?elems)]" ?top ?reg ?fl "''Items[1].Name''"] l2
    by simp
  obtain e where e: "snd (transformStruct ?reg ?fl ?top) = Some e" "''Mid.Items[1].Name'' \<in> fst ` set (Fields e)"
    using failure_path_is_key [of ?reg ?fl ?top "''Mid.Items[1].Name''"] l1 by blast
  have ev: "snd (transformFields ?reg ?fl ?top [])
      = [(''Mid.Items[1].Name'', [''boom'']), (''Ref.Name'', [''boom''])]"
    by (simp add: struct_eval transform_eval fields_eval char_of_def bit_0)
  have "e = \<lparr>Msg = ''transformation failed'',
              Fields = [(''Mid.Items[1].Name'', [''boom'']), (''Ref.Name'', [''boom''])]\<rparr>"
    using e(1) ev by (simp add: transformStruct_snd)
  then show ?thesis
    using l1 e(1) by (simp add: Transform_ptr_snd)
qed

section \<open>Running the built-in pipelines twice\<close>












section \<open>The rule required\<close>

text \<open>
  Claim C10. The built-in rule \<^verbatim>\<open>required\<close> answers the one message
  \<^verbatim>\<open>field is required\<close> exactly when the value is the empty string, a signed integer
  equal to 0, a float equal to 0, or a slice or array of length 0, and no message in
  every other case; on a value of any other kind (bool, pointer, struct, map, unsigned
  integer, ...) it never answers a message.
\<close>

theorem required_exactly_zero_values:
  "required v field =
     (if v = VString [] \<or> (\<exists>k. v = VInt k 0) \<or> (\<exists>k x. v = VFloat k x \<and> float_is_zero x)
         \<or> v = VSlice [] \<or> v = VArray []
      then [''field is required''] else [])
   \<and> (Kind v \<notin> {KString, KInt, KInt8, KInt16, KInt32, KInt64, KFloat32, KFloat64, KSlice, KArray}
        \<longrightarrow> required v field = [])"
  by (cases v) (auto simp: required_def split: int_kind.splits float_kind.splits)

text \<open>An \<^verbatim>\<open>Age int\<close> equal to 0 under the tag \<^verbatim>\<open>validator:"required"\<close> fails
  \<^verbatim>\<open>Validate\<close>; a nil pointer under the same tag does not.\<close>

theorem required_exactly_zero_values_witness:
  "Kind (VPtr None) \<notin> {KString, KInt, KInt8, KInt16, KInt32, KInt64, KFloat32, KFloat64, KSlice, KArray}
   \<and> required (VPtr None) \<lparr>Name = ''Owner'', PkgPath = [], Tag = [(''validator'', ''required'')], Anonymous = False\<rparr> = []
   \<and> required (VInt TInt 0) \<lparr>Name = ''Age'', PkgPath = [], Tag = [(''validator'', ''required'')], Anonymous = False\<rparr>
       = [''field is required'']
   \<and> Validate (addRequiredRule Map.empty)
         (Some (VPtr (Some (VStruct
            [(\<lparr>Name = ''Age'', PkgPath = [], Tag = [(''validator'', ''required'')], Anonymous = False\<rparr>,
              VInt TInt 0),
             (\<lparr>Name = ''Owner'', PkgPath = [], Tag = [(''validator'', ''required'')], Anonymous = False\<rparr>,
              VPtr None)]))))
       = (False, Some \<lparr>Msg = ''validation failed'', Fields = [(''Age'', [''field is required''])]\<rparr>)"
proof -
  let ?owner = "\<lparr>Name = ''Owner'', PkgPath = [], Tag = [(''validator'', ''required'')], Anonymous = False\<rparr>"
  let ?age = "\<lparr>Name = ''Age'', PkgPath = [], Tag = [(''validator'', ''required'')], Anonymous = False\<rparr>"
  have "required (VPtr None) ?owner = []"
    using required_exactly_zero_values [of "VPtr None" ?owner] by simp
  moreover have "required (VInt TInt 0) ?age = [''field is required'']"
    using required_exactly_zero_values [of "VInt TInt 0" ?age] by simp
  ultimately show ?thesis
    by (simp add: validate_eval string_eval)
qed

end
